theory Spec2Isabelle
  imports Main "HOL-Library.Word"
begin

section \<open>The message loop: \<^verbatim>\<open>chromeos/message_loops/base_message_loop.cc\<close>\<close>

subsection \<open>Data\<close>

text \<open>
  Modelled from the spec: \<^verbatim>\<open>MessageLoop::TaskId\<close> and \<^verbatim>\<open>MessageLoop::kTaskIdNull\<close> are
  declared in \<^verbatim>\<open>message_loop.h\<close>, which is not among the sources. The spec has a task id
  a positive integer, zero the sentinel for "no task", and the counter behind the ids
  wrapping on overflow; the test \<^verbatim>\<open>!res\<close> in \<^verbatim>\<open>NextTaskId\<close> agrees. The ids are taken 64
  bits wide; nothing below depends on the width.
\<close>

type_synonym TaskId = "64 word"

definition kTaskIdNull :: TaskId where
  "kTaskIdNull = 0"

type_synonym Location = string

text \<open>
  \<^verbatim>\<open>MessageLoop::WatchMode\<close>, as \<^verbatim>\<open>WatchFileDescriptor\<close> uses it: the enumerators
  \<^verbatim>\<open>kWatchRead\<close> and \<^verbatim>\<open>kWatchWrite\<close>, and any other value of the underlying integer
  type, which reaches the \<^verbatim>\<open>default:\<close> branch of the switch.
\<close>

datatype WatchMode = kWatchRead | kWatchWrite | kWatchOther int

datatype BaseMode = WATCH_READ | WATCH_WRITE

text \<open>
  A \<^verbatim>\<open>base::Closure\<close> is either null or bound to some code. The code of a callback is
  opaque to the loop; what matters to the loop is which of its own entry points the
  callback calls while it runs. A bound closure is therefore a list of commands: the
  public operations of the loop that a callback may call (\<^verbatim>\<open>CancelTask\<close>,
  \<^verbatim>\<open>PostDelayedTask\<close>, \<^verbatim>\<open>WatchFileDescriptor\<close>, \<^verbatim>\<open>BreakLoop\<close>,
  \<^verbatim>\<open>RunOnce\<close>, \<^verbatim>\<open>Run\<close>) and an effect
  of its own (\<open>Note\<close>) that an observer can see.
\<close>

datatype cmd =
    Note nat
  | DoCancelTask TaskId
  | DoPostDelayedTask Location Closure int
  | DoWatchFileDescriptor Location int WatchMode bool Closure
  | DoBreakLoop
  | DoRunOnce bool
  | DoRun
and Closure = NullClosure | Bind "cmd list"

definition is_null :: "Closure \<Rightarrow> bool" where
  "is_null c = (c = NullClosure)"

record DelayedTask =
  location :: Location
  task_id :: TaskId
  closure :: Closure

text \<open>
  An \<^verbatim>\<open>IOTask\<close> owns its \<^verbatim>\<open>FileDescriptorWatcher\<close>: the field \<open>fd_watcher\<close> is the
  subscription the watcher holds (none before \<^verbatim>\<open>WatchFileDescriptor\<close> of the
  underlying loop has accepted it). The subscription dies with the record.
\<close>

record IOTask =
  io_location :: Location
  io_task_id :: TaskId
  persistent :: bool
  io_closure :: Closure
  fd_watcher :: "(int \<times> BaseMode) option"

text \<open>
  What an observer of the loop sees: a callback being invoked, the effect of a callback,
  and the value each call made from inside a callback returned.
\<close>

datatype obs =
    Invoked
  | Noted nat
  | CancelReturned TaskId bool
  | PostReturned TaskId
  | WatchReturned TaskId
  | RunOnceReturned bool

text \<open>
  The notifications of the underlying loop: the timer armed for a delayed task has
  expired, or the watcher owned by the record of a task id reports its descriptor ready.
\<close>

datatype notification = TimerFired TaskId | FileReady TaskId

text \<open>
  Modelled from the spec: \<^verbatim>\<open>base::MessageLoopForIO\<close>, the underlying loop with its timer
  and readiness primitives, is an external collaborator whose code is not among the
  sources. Its state here: whether its task runner accepts a delayed task, which
  descriptors it accepts a watch for, whether \<^verbatim>\<open>QuitNow\<close> has been requested in the
  current run, and the notifications it has ready to deliver, in delivery order.
\<close>

record MessageLoopForIO =
  accepts_tasks :: bool
  accepts_watch :: "int \<Rightarrow> bool"
  quit_now :: bool
  pending :: "notification list"

record BaseMessageLoop =
  base_loop :: MessageLoopForIO
  delayed_tasks :: "TaskId \<rightharpoonup> DelayedTask"
  io_tasks :: "TaskId \<rightharpoonup> IOTask"
  run_once :: bool
  last_id :: TaskId
  observed :: "obs list"

text \<open>
  What can go wrong: running a null closure, a failed \<^verbatim>\<open>DCHECK\<close>, and a call that does
  not return (the loop of \<^verbatim>\<open>NextTaskId\<close> when no id is free, a blocking \<^verbatim>\<open>Run\<close> that
  nothing stops). The value \<open>Reenters\<close> is not a failure of the program: it marks a
  callback that starts a run of the loop, where the functions that follow only callbacks
  which do not re-enter the loop stop following.
\<close>

datatype failure = NullClosureRun | DCheckFailed | NeverReturns | Reenters

subsection \<open>The underlying loop\<close>

definition QuitNow :: "MessageLoopForIO \<Rightarrow> MessageLoopForIO" where
  "QuitNow b = b\<lparr>quit_now := True\<rparr>"

definition base_PostDelayedTask :: "MessageLoopForIO \<Rightarrow> bool" where
  "base_PostDelayedTask b = accepts_tasks b"

definition base_WatchFileDescriptor :: "MessageLoopForIO \<Rightarrow> int \<Rightarrow> bool" where
  "base_WatchFileDescriptor b fd = accepts_watch b fd"

subsection \<open>Task ids\<close>

text \<open>
  \<^verbatim>\<open>NextTaskId\<close>: the do-while loop increments \<^verbatim>\<open>last_id_\<close> until the value is neither
  zero nor a key of one of the two stores. It does not return when no such value exists.
\<close>

partial_function (option) NextTaskId :: "BaseMessageLoop \<Rightarrow> (TaskId \<times> BaseMessageLoop) option" where
  "NextTaskId s =
     (if last_id s + 1 = 0 \<or> delayed_tasks s (last_id s + 1) \<noteq> None
          \<or> io_tasks s (last_id s + 1) \<noteq> None
      then NextTaskId (s\<lparr>last_id := last_id s + 1\<rparr>)
      else Some (last_id s + 1, s\<lparr>last_id := last_id s + 1\<rparr>))"

subsection \<open>Registration and cancellation\<close>

text \<open>\<^verbatim>\<open>std::map::emplace\<close> inserts only when the key is absent, and says whether it did.\<close>

definition emplace :: "('k \<rightharpoonup> 'v) \<Rightarrow> 'k \<Rightarrow> 'v \<Rightarrow> ('k \<rightharpoonup> 'v) \<times> bool" where
  "emplace m k v = (if m k = None then (m(k \<mapsto> v), True) else (m, False))"

definition PostDelayedTask ::
  "Location \<Rightarrow> Closure \<Rightarrow> int \<Rightarrow> BaseMessageLoop \<Rightarrow> failure + (TaskId \<times> BaseMessageLoop)" where
  "PostDelayedTask from_here task delay s =
     (case NextTaskId s of
        None \<Rightarrow> Inl NeverReturns
      | Some (tid, s1) \<Rightarrow>
          if \<not> base_PostDelayedTask (base_loop s1) then Inr (kTaskIdNull, s1)
          else Inr (tid, s1\<lparr>delayed_tasks :=
                 fst (emplace (delayed_tasks s1) tid
                        \<lparr>location = from_here, task_id = tid, closure = task\<rparr>)\<rparr>))"

definition WatchFileDescriptor ::
  "Location \<Rightarrow> int \<Rightarrow> WatchMode \<Rightarrow> bool \<Rightarrow> Closure \<Rightarrow> BaseMessageLoop
     \<Rightarrow> failure + (TaskId \<times> BaseMessageLoop)" where
  "WatchFileDescriptor from_here fd mode pers task s =
     (if fd < 0 then Inr (kTaskIdNull, s)
      else case (case mode of kWatchRead \<Rightarrow> Some WATCH_READ
                            | kWatchWrite \<Rightarrow> Some WATCH_WRITE
                            | kWatchOther _ \<Rightarrow> None) of
        None \<Rightarrow> Inr (kTaskIdNull, s)
      | Some base_mode \<Rightarrow>
         (case NextTaskId s of
            None \<Rightarrow> Inl NeverReturns
          | Some (tid, s1) \<Rightarrow>
             (let new_io_task = \<lparr>io_location = from_here, io_task_id = tid, persistent = pers,
                                 io_closure = task, fd_watcher = None\<rparr>
              in case emplace (io_tasks s1) tid new_io_task of
                (m, inserted) \<Rightarrow>
                  if \<not> inserted then Inl DCheckFailed
                  else if \<not> base_WatchFileDescriptor (base_loop s1) fd then
                    Inr (kTaskIdNull, s1\<lparr>io_tasks := m(tid := None)\<rparr>)
                  else
                    Inr (tid, s1\<lparr>io_tasks :=
                           m(tid \<mapsto> new_io_task\<lparr>fd_watcher := Some (fd, base_mode)\<rparr>)\<rparr>))))"

definition CancelTask :: "TaskId \<Rightarrow> BaseMessageLoop \<Rightarrow> bool \<times> BaseMessageLoop" where
  "CancelTask tid s =
     (if tid = kTaskIdNull then (False, s)
      else case delayed_tasks s tid of
        None \<Rightarrow>
          (case io_tasks s tid of
             None \<Rightarrow> (False, s)
           | Some _ \<Rightarrow> (True, s\<lparr>io_tasks := (io_tasks s)(tid := None)\<rparr>))
      | Some t \<Rightarrow>
          if is_null (closure t) then (False, s)
          else (True, s\<lparr>delayed_tasks := (delayed_tasks s)(tid \<mapsto> t\<lparr>closure := NullClosure\<rparr>)\<rparr>))"

definition BreakLoop :: "BaseMessageLoop \<Rightarrow> BaseMessageLoop" where
  "BreakLoop s = s\<lparr>base_loop := QuitNow (base_loop s)\<rparr>"

subsection \<open>Running a callback\<close>

text \<open>
  The commands of a callback, one after the other, each followed into the operation it
  calls. A callback that calls \<^verbatim>\<open>RunOnce\<close> or \<^verbatim>\<open>Run\<close> starts a run of the loop inside
  the run that invoked it; \<open>run_cmd\<close> follows a callback up to such a call and no
  further. Callbacks that re-enter the loop are followed by \<open>run_cmd_reentrant\<close> below.
\<close>

definition observe :: "obs \<Rightarrow> BaseMessageLoop \<Rightarrow> BaseMessageLoop" where
  "observe e s = s\<lparr>observed := observed s @ [e]\<rparr>"

fun run_cmd :: "cmd \<Rightarrow> BaseMessageLoop \<Rightarrow> failure + BaseMessageLoop" where
  "run_cmd (Note n) s = Inr (observe (Noted n) s)"
| "run_cmd (DoCancelTask tid) s =
     (case CancelTask tid s of (r, s') \<Rightarrow> Inr (observe (CancelReturned tid r) s'))"
| "run_cmd (DoPostDelayedTask from_here task delay) s =
     (case PostDelayedTask from_here task delay s of
        Inl f \<Rightarrow> Inl f
      | Inr (tid, s') \<Rightarrow> Inr (observe (PostReturned tid) s'))"
| "run_cmd (DoWatchFileDescriptor from_here fd mode pers task) s =
     (case WatchFileDescriptor from_here fd mode pers task s of
        Inl f \<Rightarrow> Inl f
      | Inr (tid, s') \<Rightarrow> Inr (observe (WatchReturned tid) s'))"
| "run_cmd DoBreakLoop s = Inr (BreakLoop s)"
| "run_cmd (DoRunOnce may_block) s = Inl Reenters"
| "run_cmd DoRun s = Inl Reenters"

fun run_cmds :: "cmd list \<Rightarrow> BaseMessageLoop \<Rightarrow> failure + BaseMessageLoop" where
  "run_cmds [] s = Inr s"
| "run_cmds (c # cs) s =
     (case run_cmd c s of Inl f \<Rightarrow> Inl f | Inr s' \<Rightarrow> run_cmds cs s')"

fun Closure_Run :: "Closure \<Rightarrow> BaseMessageLoop \<Rightarrow> failure + BaseMessageLoop" where
  "Closure_Run NullClosure s = Inl NullClosureRun"
| "Closure_Run (Bind cs) s = run_cmds cs (observe Invoked s)"

subsection \<open>The fire paths\<close>

text \<open>The tail shared by both fire paths: \<^verbatim>\<open>if (run_once_) { run_once_ = false; QuitNow(); }\<close>.\<close>

definition stop_if_run_once :: "BaseMessageLoop \<Rightarrow> BaseMessageLoop" where
  "stop_if_run_once s =
     (if run_once s then s\<lparr>run_once := False, base_loop := QuitNow (base_loop s)\<rparr> else s)"

definition OnRanPostedTask :: "TaskId \<Rightarrow> BaseMessageLoop \<Rightarrow> failure + BaseMessageLoop" where
  "OnRanPostedTask tid s =
     (case delayed_tasks s tid of
        None \<Rightarrow> Inl DCheckFailed
      | Some t \<Rightarrow>
          if \<not> is_null (closure t) then
            (case Closure_Run (closure t)
                    (s\<lparr>delayed_tasks := (delayed_tasks s)(tid \<mapsto> t\<lparr>closure := NullClosure\<rparr>)\<rparr>) of
               Inl f \<Rightarrow> Inl f
             | Inr s2 \<Rightarrow>
                 Inr ((stop_if_run_once s2)
                        \<lparr>delayed_tasks := (delayed_tasks (stop_if_run_once s2))(tid := None)\<rparr>))
          else Inr (s\<lparr>delayed_tasks := (delayed_tasks s)(tid := None)\<rparr>))"

text \<open>
  \<^verbatim>\<open>IOTask::OnFileReady\<close> runs on a record \<open>this\<close> of the watch store. The one-shot branch
  moves the closure out, erases the record under its own \<^verbatim>\<open>task_id_\<close> and runs the copy.
\<close>

definition OnFileReady :: "IOTask \<Rightarrow> int \<Rightarrow> BaseMessageLoop \<Rightarrow> failure + BaseMessageLoop" where
  "OnFileReady this fd s =
     (case (if persistent this then Closure_Run (io_closure this) s
            else Closure_Run (io_closure this)
                   (s\<lparr>io_tasks := (io_tasks s)(io_task_id this := None)\<rparr>)) of
        Inl f \<Rightarrow> Inl f
      | Inr s2 \<Rightarrow> Inr (stop_if_run_once s2))"

definition OnFileCanReadWithoutBlocking ::
  "IOTask \<Rightarrow> int \<Rightarrow> BaseMessageLoop \<Rightarrow> failure + BaseMessageLoop" where
  "OnFileCanReadWithoutBlocking this fd s = OnFileReady this fd s"

definition OnFileCanWriteWithoutBlocking ::
  "IOTask \<Rightarrow> int \<Rightarrow> BaseMessageLoop \<Rightarrow> failure + BaseMessageLoop" where
  "OnFileCanWriteWithoutBlocking this fd s = OnFileReady this fd s"

subsection \<open>Driving the underlying loop\<close>

text \<open>
  Modelled from the spec: how the underlying loop delivers. A timer notification goes to
  \<^verbatim>\<open>OnRanPostedTask\<close>, bound to the task id when the timer was armed. A readiness
  notification goes to the delegate of a live watcher only: a watcher lives inside its
  record in the watch store (destroying the \<^verbatim>\<open>FileDescriptorWatcher\<close> stops the watching,
  as the comments in \<^verbatim>\<open>CancelTask\<close> and \<^verbatim>\<open>OnFileReady\<close> say), and a record that was
  erased has no watcher left to notify.
\<close>

definition deliver :: "notification \<Rightarrow> BaseMessageLoop \<Rightarrow> failure + BaseMessageLoop" where
  "deliver n s =
     (case n of
        TimerFired tid \<Rightarrow> OnRanPostedTask tid s
      | FileReady tid \<Rightarrow>
          (case io_tasks s tid of
             None \<Rightarrow> Inr s
           | Some this \<Rightarrow>
              (case fd_watcher this of
                 None \<Rightarrow> Inr s
               | Some (fd, WATCH_READ) \<Rightarrow> OnFileCanReadWithoutBlocking this fd s
               | Some (fd, WATCH_WRITE) \<Rightarrow> OnFileCanWriteWithoutBlocking this fd s)))"

text \<open>
  Modelled from the spec: one run of the underlying loop over the notifications it has
  ready. It delivers them in order and stops as soon as control returns to it after
  \<^verbatim>\<open>QuitNow\<close> has been requested.
\<close>

fun pump :: "notification list \<Rightarrow> BaseMessageLoop \<Rightarrow> failure + BaseMessageLoop" where
  "pump [] s = Inr (s\<lparr>base_loop := (base_loop s)\<lparr>pending := []\<rparr>\<rparr>)"
| "pump (n # ns) s =
     (case deliver n (s\<lparr>base_loop := (base_loop s)\<lparr>pending := ns\<rparr>\<rparr>) of
        Inl f \<Rightarrow> Inl f
      | Inr s' \<Rightarrow> if quit_now (base_loop s') then Inr s' else pump ns s')"

text \<open>
  Modelled from the spec: the two ways of driving the underlying loop. \<^verbatim>\<open>RunUntilIdle\<close>
  returns when nothing is ready any more or \<^verbatim>\<open>QuitNow\<close> was requested; \<^verbatim>\<open>Run\<close> blocks
  for more work when nothing is ready, so it returns only after \<^verbatim>\<open>QuitNow\<close>. Each run
  starts with no quit requested.
\<close>

definition base_RunUntilIdle :: "BaseMessageLoop \<Rightarrow> failure + BaseMessageLoop" where
  "base_RunUntilIdle s =
     pump (pending (base_loop s)) (s\<lparr>base_loop := (base_loop s)\<lparr>quit_now := False\<rparr>\<rparr>)"

definition base_Run :: "BaseMessageLoop \<Rightarrow> failure + BaseMessageLoop" where
  "base_Run s =
     (case pump (pending (base_loop s)) (s\<lparr>base_loop := (base_loop s)\<lparr>quit_now := False\<rparr>\<rparr>) of
        Inl f \<Rightarrow> Inl f
      | Inr s' \<Rightarrow> if quit_now (base_loop s') then Inr s' else Inl NeverReturns)"

definition RunOnce :: "bool \<Rightarrow> BaseMessageLoop \<Rightarrow> failure + (bool \<times> BaseMessageLoop)" where
  "RunOnce may_block s =
     (case (if \<not> may_block then base_RunUntilIdle (s\<lparr>run_once := True\<rparr>)
            else base_Run (s\<lparr>run_once := True\<rparr>)) of
        Inl f \<Rightarrow> Inl f
      | Inr s' \<Rightarrow> if \<not> run_once s' then Inr (True, s') else Inr (False, s'\<lparr>run_once := False\<rparr>))"

subsection \<open>Runs started from inside a callback\<close>

text \<open>
  A callback may call \<^verbatim>\<open>RunOnce\<close> or \<^verbatim>\<open>Run\<close> itself: the underlying loop then runs
  inside the run that invoked the callback, and the loop object, with its one \<^verbatim>\<open>run_once_\<close>
  field, is shared by both runs. The functions of this subsection are the operations and
  fire paths above once more, for callbacks that do so. They take as \<open>inner\<close> what a run
  of the underlying loop does when a callback starts it: \<open>inner True\<close> for
  \<^verbatim>\<open>base_loop_->Run()\<close>, \<open>inner False\<close> for \<^verbatim>\<open>base_loop_->RunUntilIdle()\<close>.
\<close>

type_synonym inner_run = "bool \<Rightarrow> BaseMessageLoop \<Rightarrow> failure + BaseMessageLoop"

text \<open>\<^verbatim>\<open>RunOnce\<close> and \<^verbatim>\<open>Run\<close> (lines 149 to 165), on a given run of the underlying loop.\<close>

definition RunOnce_on :: "inner_run \<Rightarrow> bool \<Rightarrow> BaseMessageLoop \<Rightarrow> failure + (bool \<times> BaseMessageLoop)" where
  "RunOnce_on inner may_block s =
     (case (if \<not> may_block then inner False (s\<lparr>run_once := True\<rparr>)
            else inner True (s\<lparr>run_once := True\<rparr>)) of
        Inl f \<Rightarrow> Inl f
      | Inr s' \<Rightarrow> if \<not> run_once s' then Inr (True, s') else Inr (False, s'\<lparr>run_once := False\<rparr>))"

definition Run_on :: "inner_run \<Rightarrow> BaseMessageLoop \<Rightarrow> failure + BaseMessageLoop" where
  "Run_on inner s = inner True s"

fun run_cmd_reentrant :: "inner_run \<Rightarrow> cmd \<Rightarrow> BaseMessageLoop \<Rightarrow> failure + BaseMessageLoop" where
  "run_cmd_reentrant inner (DoRunOnce may_block) s =
     (case RunOnce_on inner may_block s of
        Inl f \<Rightarrow> Inl f
      | Inr (r, s') \<Rightarrow> Inr (observe (RunOnceReturned r) s'))"
| "run_cmd_reentrant inner DoRun s = Run_on inner s"
| "run_cmd_reentrant inner c s = run_cmd c s"

fun run_cmds_reentrant :: "inner_run \<Rightarrow> cmd list \<Rightarrow> BaseMessageLoop \<Rightarrow> failure + BaseMessageLoop" where
  "run_cmds_reentrant inner [] s = Inr s"
| "run_cmds_reentrant inner (c # cs) s =
     (case run_cmd_reentrant inner c s of
        Inl f \<Rightarrow> Inl f
      | Inr s' \<Rightarrow> run_cmds_reentrant inner cs s')"

fun Closure_Run_reentrant :: "inner_run \<Rightarrow> Closure \<Rightarrow> BaseMessageLoop \<Rightarrow> failure + BaseMessageLoop" where
  "Closure_Run_reentrant inner NullClosure s = Inl NullClosureRun"
| "Closure_Run_reentrant inner (Bind cs) s = run_cmds_reentrant inner cs (observe Invoked s)"

text \<open>The two fire paths (lines 182 to 203 and 221 to 248), running such a callback.\<close>

definition OnRanPostedTask_reentrant ::
  "inner_run \<Rightarrow> TaskId \<Rightarrow> BaseMessageLoop \<Rightarrow> failure + BaseMessageLoop" where
  "OnRanPostedTask_reentrant inner tid s =
     (case delayed_tasks s tid of
        None \<Rightarrow> Inl DCheckFailed
      | Some t \<Rightarrow>
          if \<not> is_null (closure t) then
            (case Closure_Run_reentrant inner (closure t)
                    (s\<lparr>delayed_tasks := (delayed_tasks s)(tid \<mapsto> t\<lparr>closure := NullClosure\<rparr>)\<rparr>) of
               Inl f \<Rightarrow> Inl f
             | Inr s2 \<Rightarrow>
                 Inr ((stop_if_run_once s2)
                        \<lparr>delayed_tasks := (delayed_tasks (stop_if_run_once s2))(tid := None)\<rparr>))
          else Inr (s\<lparr>delayed_tasks := (delayed_tasks s)(tid := None)\<rparr>))"

definition OnFileReady_reentrant ::
  "inner_run \<Rightarrow> IOTask \<Rightarrow> int \<Rightarrow> BaseMessageLoop \<Rightarrow> failure + BaseMessageLoop" where
  "OnFileReady_reentrant inner this fd s =
     (case (if persistent this then Closure_Run_reentrant inner (io_closure this) s
            else Closure_Run_reentrant inner (io_closure this)
                   (s\<lparr>io_tasks := (io_tasks s)(io_task_id this := None)\<rparr>)) of
        Inl f \<Rightarrow> Inl f
      | Inr s2 \<Rightarrow> Inr (stop_if_run_once s2))"

text \<open>
  Modelled from the spec: the underlying loop delivers as above, both entry points of the
  watcher's delegate leading to \<^verbatim>\<open>OnFileReady\<close>.
\<close>

definition deliver_reentrant ::
  "inner_run \<Rightarrow> notification \<Rightarrow> BaseMessageLoop \<Rightarrow> failure + BaseMessageLoop" where
  "deliver_reentrant inner n s =
     (case n of
        TimerFired tid \<Rightarrow> OnRanPostedTask_reentrant inner tid s
      | FileReady tid \<Rightarrow>
          (case io_tasks s tid of
             None \<Rightarrow> Inr s
           | Some this \<Rightarrow>
              (case fd_watcher this of
                 None \<Rightarrow> Inr s
               | Some (fd, m) \<Rightarrow> OnFileReady_reentrant inner this fd s)))"

text \<open>
  Modelled from the spec: a run of the underlying loop whose callbacks may start runs of
  their own. A run started by a callback delivers from the same ready notifications, so
  the run around it goes on with what is still ready in the state when the callback
  returns, and not with what was ready before. The first argument bounds the number of
  deliveries; a run is given the number of notifications ready at its start, and no
  command of a callback adds to them.
\<close>

fun pump_reentrant :: "inner_run \<Rightarrow> nat \<Rightarrow> BaseMessageLoop \<Rightarrow> failure + BaseMessageLoop" where
  "pump_reentrant inner 0 s = Inr s"
| "pump_reentrant inner (Suc k) s =
     (case pending (base_loop s) of
        [] \<Rightarrow> Inr s
      | n # ns \<Rightarrow>
         (case deliver_reentrant inner n (s\<lparr>base_loop := (base_loop s)\<lparr>pending := ns\<rparr>\<rparr>) of
            Inl f \<Rightarrow> Inl f
          | Inr s' \<Rightarrow> if quit_now (base_loop s') then Inr s' else pump_reentrant inner k s'))"

text \<open>
  Modelled from the spec: \<^verbatim>\<open>QuitNow\<close> stops the innermost run only. Every run starts with
  no quit requested, and when it returns, the quit request of the run around it is what
  it was when the inner run started.
\<close>

definition base_run_reentrant :: "inner_run \<Rightarrow> bool \<Rightarrow> BaseMessageLoop \<Rightarrow> failure + BaseMessageLoop" where
  "base_run_reentrant inner may_block s =
     (case pump_reentrant inner (length (pending (base_loop s)))
             (s\<lparr>base_loop := (base_loop s)\<lparr>quit_now := False\<rparr>\<rparr>) of
        Inl f \<Rightarrow> Inl f
      | Inr s' \<Rightarrow>
          if may_block \<and> \<not> quit_now (base_loop s') then Inl NeverReturns
          else Inr (s'\<lparr>base_loop := (base_loop s')\<lparr>quit_now := quit_now (base_loop s)\<rparr>\<rparr>))"

definition innermost_run :: inner_run where
  "innermost_run may_block s =
     (case (if may_block then base_Run s else base_RunUntilIdle s) of
        Inl f \<Rightarrow> Inl f
      | Inr s' \<Rightarrow> Inr (s'\<lparr>base_loop := (base_loop s')\<lparr>quit_now := quit_now (base_loop s)\<rparr>\<rparr>))"

text \<open>
  A run of the underlying loop in which runs nest to a given depth: at depth 0 the
  callbacks do not re-enter the loop, at depth \<open>d + 1\<close> a callback may start a run of
  depth \<open>d\<close>.
\<close>

primrec run_nesting :: "nat \<Rightarrow> inner_run" where
  "run_nesting 0 = innermost_run"
| "run_nesting (Suc d) = base_run_reentrant (run_nesting d)"

text \<open>
  The constructor: a loop on a given underlying loop, with both stores empty. The initial
  values of \<^verbatim>\<open>run_once_\<close> and \<^verbatim>\<open>last_id_\<close> are set in the header, which is not among the
  sources; they are taken to be false and the sentinel.
\<close>

definition BaseMessageLoop_new :: "MessageLoopForIO \<Rightarrow> BaseMessageLoop" where
  "BaseMessageLoop_new b =
     \<lparr>base_loop = b, delayed_tasks = Map.empty, io_tasks = Map.empty, run_once = False,
      last_id = kTaskIdNull, observed = []\<rparr>"

subsection \<open>What can happen to a loop\<close>

text \<open>
  Between two moments of its life a loop sees calls of its public operations, deliveries
  of notifications by the underlying loop, and changes of the underlying loop itself
  (what it accepts, what it has pending).
\<close>

datatype action = Call cmd | Deliver notification | Underlying MessageLoopForIO

fun act :: "action \<Rightarrow> BaseMessageLoop \<Rightarrow> failure + BaseMessageLoop" where
  "act (Call c) s = run_cmd c s"
| "act (Deliver n) s = deliver n s"
| "act (Underlying b) s = Inr (s\<lparr>base_loop := b\<rparr>)"

fun acts :: "action list \<Rightarrow> BaseMessageLoop \<Rightarrow> failure + BaseMessageLoop" where
  "acts [] s = Inr s"
| "acts (a # as) s = (case act a s of Inl f \<Rightarrow> Inl f | Inr s' \<Rightarrow> acts as s')"

subsection \<open>The invariant and the observations\<close>

text \<open>
  The state invariant of the two stores: no record is bound to the sentinel id, no id is
  bound in both stores, and every record is stored under the id it carries.
\<close>

definition well_formed :: "BaseMessageLoop \<Rightarrow> bool" where
  "well_formed s \<longleftrightarrow>
     delayed_tasks s kTaskIdNull = None \<and> io_tasks s kTaskIdNull = None \<and>
     (\<forall>tid t. delayed_tasks s tid = Some t \<longrightarrow> io_tasks s tid = None \<and> task_id t = tid) \<and>
     (\<forall>tid t. io_tasks s tid = Some t \<longrightarrow> io_task_id t = tid)"

text \<open>The number of callbacks invoked so far, and what was observed between two states.\<close>

definition invocations :: "BaseMessageLoop \<Rightarrow> nat" where
  "invocations s = count_list (observed s) Invoked"

definition observed_since :: "BaseMessageLoop \<Rightarrow> BaseMessageLoop \<Rightarrow> obs list" where
  "observed_since s s' = drop (length (observed s)) (observed s')"

subsection \<open>States used as examples\<close>

text \<open>An underlying loop that accepts every registration and has nothing to deliver.\<close>

definition idle_base :: MessageLoopForIO where
  "idle_base = \<lparr>accepts_tasks = True, accepts_watch = (\<lambda>fd. True), quit_now = False, pending = []\<rparr>"

text \<open>A loop holding one delayed task, of id 1, whose timer has not fired yet.\<close>

definition one_delayed :: BaseMessageLoop where
  "one_delayed = (BaseMessageLoop_new idle_base)
     \<lparr>delayed_tasks := [1 \<mapsto> \<lparr>location = ''here'', task_id = 1, closure = Bind [Note 7]\<rparr>],
      last_id := 1\<rparr>"

text \<open>A loop holding one delayed task of id 1 whose callback cancels its own id.\<close>

definition self_cancelling_delayed :: BaseMessageLoop where
  "self_cancelling_delayed = (BaseMessageLoop_new idle_base)
     \<lparr>delayed_tasks :=
        [1 \<mapsto> \<lparr>location = ''here'', task_id = 1, closure = Bind [DoCancelTask 1, Note 7]\<rparr>],
      last_id := 1\<rparr>"

text \<open>A loop holding a one-shot watch of id 1 on descriptor 3 whose callback cancels its own id.\<close>

definition one_shot_watch :: BaseMessageLoop where
  "one_shot_watch = (BaseMessageLoop_new idle_base)
     \<lparr>io_tasks :=
        [1 \<mapsto> \<lparr>io_location = ''here'', io_task_id = 1, persistent = False,
                io_closure = Bind [DoCancelTask 1, Note 7], fd_watcher = Some (3, WATCH_READ)\<rparr>],
      last_id := 1\<rparr>"

text \<open>A loop holding a persistent watch of id 1 on descriptor 3.\<close>

definition persistent_watch :: BaseMessageLoop where
  "persistent_watch = (BaseMessageLoop_new idle_base)
     \<lparr>io_tasks :=
        [1 \<mapsto> \<lparr>io_location = ''here'', io_task_id = 1, persistent = True,
                io_closure = Bind [Note 7], fd_watcher = Some (3, WATCH_READ)\<rparr>],
      last_id := 1\<rparr>"

text \<open>An underlying loop that refuses every registration.\<close>

definition refusing_base :: MessageLoopForIO where
  "refusing_base = \<lparr>accepts_tasks = False, accepts_watch = (\<lambda>fd. False), quit_now = False, pending = []\<rparr>"

text \<open>A loop holding two delayed tasks, of ids 1 and 2, whose timers have both expired.\<close>

definition two_timers_ready :: BaseMessageLoop where
  "two_timers_ready = (BaseMessageLoop_new (idle_base\<lparr>pending := [TimerFired 1, TimerFired 2]\<rparr>))
     \<lparr>delayed_tasks :=
        [1 \<mapsto> \<lparr>location = ''here'', task_id = 1, closure = Bind [Note 7]\<rparr>,
         2 \<mapsto> \<lparr>location = ''there'', task_id = 2, closure = Bind [Note 8]\<rparr>],
      last_id := 2\<rparr>"

text \<open>
  A loop holding three one-shot watches whose descriptors are all ready. The callback of
  the first calls \<^verbatim>\<open>RunOnce(false)\<close> itself.
\<close>

definition reentering :: BaseMessageLoop where
  "reentering =
     (BaseMessageLoop_new (idle_base\<lparr>pending := [FileReady 1, FileReady 2, FileReady 3]\<rparr>))
     \<lparr>io_tasks :=
        [1 \<mapsto> \<lparr>io_location = ''a'', io_task_id = 1, persistent = False,
                io_closure = Bind [DoRunOnce False, Note 7], fd_watcher = Some (3, WATCH_READ)\<rparr>,
         2 \<mapsto> \<lparr>io_location = ''b'', io_task_id = 2, persistent = False,
                io_closure = Bind [Note 8], fd_watcher = Some (4, WATCH_READ)\<rparr>,
         3 \<mapsto> \<lparr>io_location = ''c'', io_task_id = 3, persistent = False,
                io_closure = Bind [Note 9], fd_watcher = Some (5, WATCH_WRITE)\<rparr>],
      last_id := 3\<rparr>"

text \<open>
  A loop with a cancelled delayed task whose timer has expired, a one-shot watch whose
  descriptor is ready, and a delayed task whose timer has expired, in this order.
\<close>

definition cancelled_then_watch :: BaseMessageLoop where
  "cancelled_then_watch =
     (BaseMessageLoop_new (idle_base\<lparr>pending := [TimerFired 1, FileReady 2, TimerFired 3]\<rparr>))
     \<lparr>delayed_tasks :=
        [1 \<mapsto> \<lparr>location = ''here'', task_id = 1, closure = NullClosure\<rparr>,
         3 \<mapsto> \<lparr>location = ''there'', task_id = 3, closure = Bind [Note 9]\<rparr>],
      io_tasks :=
        [2 \<mapsto> \<lparr>io_location = ''b'', io_task_id = 2, persistent = False,
                io_closure = Bind [Note 8], fd_watcher = Some (4, WATCH_WRITE)\<rparr>],
      last_id := 3\<rparr>"

section \<open>File utilities: \<^verbatim>\<open>brillo/file_utils.cc\<close>\<close>

subsection \<open>The file system and the process\<close>

unbundle bit_operations_syntax

text \<open>
  The functions of this file act on the file system through system calls and through
  helpers of \<^verbatim>\<open>base\<close>. The file system is an explicit store here. A path is the list of
  its components. A file system binds paths to nodes; the empty path is the directory
  every other path starts from. A regular file has its bytes, its permission bits, its
  owner and group, and whether its data has reached stable storage.
\<close>

type_synonym FilePath = "string list"

type_synonym byte = "8 word"

record inode =
  contents :: "byte list"
  st_mode :: int
  st_uid :: nat
  st_gid :: nat
  durable :: bool

datatype node = RegularFile inode | Directory | Symlink FilePath

type_synonym filesystem = "FilePath \<Rightarrow> node option"

definition node_at :: "filesystem \<Rightarrow> FilePath \<Rightarrow> node option" where
  "node_at fs p = (if p = [] then Some Directory else fs p)"

text \<open>
  The calls into the system and into \<^verbatim>\<open>base\<close>, by the place of the call in the source.
  Each can fail for a reason the file system does not show (permissions, resources, I/O).
\<close>

datatype call_site =
    AtOpenExisting | AtFstat | AtDeleteExisting | AtCreateDirectory | AtOpenCreate
  | AtFchmod | AtDeleteCreated | AtOpenTemp | AtFdatasync | AtClose | AtRename | AtUnlink

datatype errno = ENOENT | ELOOP | EEXIST | EOTHER

text \<open>
  The environment of a call: the effective ids and the umask of the process, which calls
  fail, what the successive calls of \<^verbatim>\<open>write\<close> return, and the bytes \<^verbatim>\<open>RandBytes\<close> gives.
\<close>

record env =
  euid :: nat
  egid :: nat
  umask :: int
  fails :: "call_site \<Rightarrow> bool"
  write_result :: "nat \<Rightarrow> int"
  rand_bytes :: "nat \<Rightarrow> byte"

definition kPermissions600 :: int where
  "kPermissions600 = 384"

definition kPermissions777 :: int where
  "kPermissions777 = 511"

subsection \<open>Paths, as \<^verbatim>\<open>base::FilePath\<close> has them\<close>

definition DirName :: "FilePath \<Rightarrow> FilePath" where
  "DirName p = butlast p"

definition AddExtension :: "FilePath \<Rightarrow> string \<Rightarrow> FilePath" where
  "AddExtension p ext =
     (if p = [] \<or> last p = [] \<or> last p = ''.'' \<or> last p = ''..'' then []
      else if ext = [] \<or> ext = ''.'' then p
      else butlast p @
             [last p @ (if hd ext \<noteq> CHR ''.'' \<and> last (last p) \<noteq> CHR ''.'' then ''.'' else [])
                @ ext])"

subsection \<open>System calls and \<^verbatim>\<open>base\<close> helpers\<close>

definition DirectoryExists :: "filesystem \<Rightarrow> FilePath \<Rightarrow> bool" where
  "DirectoryExists fs p = (node_at fs p = Some Directory)"

text \<open>The non-empty prefixes of a path: the directories \<^verbatim>\<open>CreateDirectory\<close> makes sure of.\<close>

definition ancestors :: "FilePath \<Rightarrow> FilePath list" where
  "ancestors p = map (\<lambda>k. take k p) [1..<Suc (length p)]"

definition CreateDirectory :: "env \<Rightarrow> FilePath \<Rightarrow> filesystem \<Rightarrow> bool \<times> filesystem" where
  "CreateDirectory e dir fs =
     (if DirectoryExists fs dir then (True, fs)
      else if fails e AtCreateDirectory
              \<or> (\<exists>a \<in> set (ancestors dir). fs a \<noteq> None \<and> fs a \<noteq> Some Directory)
           then (False, fs)
      else (True, \<lambda>q. if q \<in> set (ancestors dir) then Some Directory else fs q))"

text \<open>
  \<^verbatim>\<open>base::DeleteFile\<close>: nothing at the path is a success; a directory goes with everything
  below it when the call is recursive and only when empty otherwise; any other node is
  unlinked, a symbolic link itself and not what it points to.
\<close>

definition DeleteFile :: "env \<Rightarrow> call_site \<Rightarrow> FilePath \<Rightarrow> bool \<Rightarrow> filesystem \<Rightarrow> bool \<times> filesystem" where
  "DeleteFile e site p recursive fs =
     (case node_at fs p of
        None \<Rightarrow> (True, fs)
      | Some Directory \<Rightarrow>
          if fails e site \<or> p = [] then (False, fs)
          else if recursive then (True, \<lambda>q. if take (length p) q = p then None else fs q)
          else if (\<exists>q. q \<noteq> p \<and> take (length p) q = p \<and> fs q \<noteq> None) then (False, fs)
          else (True, fs(p := None))
      | Some _ \<Rightarrow> if fails e site then (False, fs) else (True, fs(p := None)))"

text \<open>
  \<^verbatim>\<open>openat\<close> with \<^verbatim>\<open>O_RDONLY | O_NOFOLLOW\<close>: the descriptor stands for the node it opened.
\<close>

definition openat_rdonly_nofollow :: "env \<Rightarrow> call_site \<Rightarrow> filesystem \<Rightarrow> FilePath \<Rightarrow> errno + node" where
  "openat_rdonly_nofollow e site fs p =
     (if fails e site then Inl EOTHER
      else case node_at fs p of
        None \<Rightarrow> Inl ENOENT
      | Some (Symlink t) \<Rightarrow> Inl ELOOP
      | Some n \<Rightarrow> Inr n)"

text \<open>
  \<^verbatim>\<open>open\<close> with \<^verbatim>\<open>O_CREAT | O_EXCL\<close>: it fails when anything, a symbolic link included,
  is at the path; the new file is empty, belongs to the effective user and group, and
  has the requested permission bits less those of the umask.
\<close>

definition open_creat_excl :: "env \<Rightarrow> call_site \<Rightarrow> filesystem \<Rightarrow> FilePath \<Rightarrow> int \<Rightarrow> filesystem option" where
  "open_creat_excl e site fs p mode =
     (if fails e site \<or> node_at fs p \<noteq> None \<or> \<not> DirectoryExists fs (DirName p) then None
      else Some (fs(p \<mapsto> RegularFile \<lparr>contents = [], st_mode = mode AND NOT (umask e),
                                       st_uid = euid e, st_gid = egid e, durable = False\<rparr>)))"

definition fchmod :: "env \<Rightarrow> filesystem \<Rightarrow> FilePath \<Rightarrow> int \<Rightarrow> filesystem option" where
  "fchmod e fs p mode =
     (if fails e AtFchmod then None
      else case fs p of
        Some (RegularFile f) \<Rightarrow> Some (fs(p \<mapsto> RegularFile (f\<lparr>st_mode := mode\<rparr>)))
      | _ \<Rightarrow> None)"

text \<open>\<^verbatim>\<open>unlink\<close>, whose result the source ignores: it removes what is not a directory.\<close>

definition unlink :: "env \<Rightarrow> filesystem \<Rightarrow> FilePath \<Rightarrow> filesystem" where
  "unlink e fs p =
     (if fails e AtUnlink then fs
      else case node_at fs p of Some Directory \<Rightarrow> fs | _ \<Rightarrow> fs(p := None))"

text \<open>
  \<^verbatim>\<open>rename\<close> of a regular file, the only kind the source renames: the new path takes the
  file in one step, whatever was there unless it is a directory.
\<close>

definition rename :: "env \<Rightarrow> filesystem \<Rightarrow> FilePath \<Rightarrow> FilePath \<Rightarrow> bool \<times> filesystem" where
  "rename e fs old new =
     (if fails e AtRename then (False, fs)
      else case node_at fs old of
        Some (RegularFile f) \<Rightarrow>
          if old = new then (True, fs)
          else if node_at fs new = Some Directory \<or> \<not> DirectoryExists fs (DirName new)
          then (False, fs)
          else (True, fs(new \<mapsto> RegularFile f, old := None))
      | _ \<Rightarrow> (False, fs))"

text \<open>What \<^verbatim>\<open>write\<close> and \<^verbatim>\<open>fdatasync\<close> do to the file behind the descriptor.\<close>

definition set_contents :: "filesystem \<Rightarrow> FilePath \<Rightarrow> byte list \<Rightarrow> filesystem" where
  "set_contents fs p bs =
     (case fs p of Some (RegularFile f) \<Rightarrow> fs(p \<mapsto> RegularFile (f\<lparr>contents := bs\<rparr>)) | _ \<Rightarrow> fs)"

definition set_durable :: "filesystem \<Rightarrow> FilePath \<Rightarrow> filesystem" where
  "set_durable fs p =
     (case fs p of Some (RegularFile f) \<Rightarrow> fs(p \<mapsto> RegularFile (f\<lparr>durable := True\<rparr>)) | _ \<Rightarrow> fs)"

subsection \<open>\<^verbatim>\<open>TouchFile\<close>\<close>

datatype RegularFileOrDeleteResult = kFailure | kRegularFile | kEmpty

definition RegularFileOrDelete ::
  "env \<Rightarrow> FilePath \<Rightarrow> nat \<Rightarrow> nat \<Rightarrow> filesystem \<Rightarrow> RegularFileOrDeleteResult \<times> filesystem" where
  "RegularFileOrDelete e path uid gid fs =
     (let scoped_fd = openat_rdonly_nofollow e AtOpenExisting fs path;
          path_not_empty = (case scoped_fd of Inl err \<Rightarrow> err = ELOOP | Inr _ \<Rightarrow> True)
      in if (case scoped_fd of
               Inr (RegularFile file_stat) \<Rightarrow>
                 \<not> fails e AtFstat \<and> st_uid file_stat = uid \<and> st_gid file_stat = gid
             | Inr _ \<Rightarrow> False
             | Inl _ \<Rightarrow> False)
         then (kRegularFile, fs)
         else if path_not_empty then
           (case DeleteFile e AtDeleteExisting path True fs of
              (False, fs') \<Rightarrow> (kFailure, fs')
            | (True, fs') \<Rightarrow> (kEmpty, fs'))
         else (kEmpty, fs))"

text \<open>
  \<^verbatim>\<open>TouchFileInternal\<close>: the third component says whether \<^verbatim>\<open>fd_out\<close> was set, which the
  source does only when it has created the file.
\<close>

definition TouchFileInternal ::
  "env \<Rightarrow> FilePath \<Rightarrow> nat \<Rightarrow> nat \<Rightarrow> filesystem \<Rightarrow> bool \<times> filesystem \<times> bool" where
  "TouchFileInternal e path uid gid fs =
     (case RegularFileOrDelete e path uid gid fs of
        (kFailure, fs1) \<Rightarrow> (False, fs1, False)
      | (kRegularFile, fs1) \<Rightarrow> (True, fs1, False)
      | (kEmpty, fs1) \<Rightarrow>
          (case CreateDirectory e (DirName path) fs1 of
             (False, fs2) \<Rightarrow> (False, fs2, False)
           | (True, fs2) \<Rightarrow>
               (case open_creat_excl e AtOpenCreate fs2 path kPermissions600 of
                  None \<Rightarrow> (False, fs2, False)
                | Some fs3 \<Rightarrow> (True, fs3, True))))"

text \<open>
  \<^verbatim>\<open>TouchFile\<close> with permissions and owner. \<^verbatim>\<open>fchmod\<close> is the only call made on a file
  the function has created; no call changes the owner of a file.
\<close>

definition TouchFile :: "env \<Rightarrow> FilePath \<Rightarrow> int \<Rightarrow> nat \<Rightarrow> nat \<Rightarrow> filesystem \<Rightarrow> bool \<times> filesystem" where
  "TouchFile e path new_file_permissions uid gid fs =
     (if new_file_permissions AND NOT kPermissions777 \<noteq> 0 then (False, fs)
      else case TouchFileInternal e path uid gid fs of
        (False, fs1, scoped_fd) \<Rightarrow> (False, fs1)
      | (True, fs1, scoped_fd) \<Rightarrow>
          if scoped_fd then
            (case fchmod e fs1 path new_file_permissions of
               None \<Rightarrow> (False, snd (DeleteFile e AtDeleteCreated path False fs1))
             | Some fs2 \<Rightarrow> (True, fs2))
          else (True, fs1))"

text \<open>The overload with a path only: owner-only permissions, for the caller itself.\<close>

definition TouchFile_path :: "env \<Rightarrow> FilePath \<Rightarrow> filesystem \<Rightarrow> bool \<times> filesystem" where
  "TouchFile_path e path fs = TouchFile e path kPermissions600 (euid e) (egid e) fs"

subsection \<open>\<^verbatim>\<open>WriteToFileAtomic\<close>\<close>

definition suffix_char :: "byte \<Rightarrow> char" where
  "suffix_char b =
     (let random_value = unat b mod (2 * 26 + 10)
      in if random_value < 26 then char_of (of_char CHR ''a'' + random_value)
         else if random_value < 2 * 26 then char_of (of_char CHR ''A'' + random_value - 26)
         else char_of (of_char CHR ''0'' + random_value - 2 * 26))"

definition GetRandomSuffix :: "(nat \<Rightarrow> byte) \<Rightarrow> string" where
  "GetRandomSuffix buffer = map (\<lambda>i. suffix_char (buffer i)) [0..<6]"

text \<open>
  The write loop. The \<open>k\<close>-th call of \<^verbatim>\<open>write\<close> returns what the environment says, at most
  the count it was asked for; a negative value is an error. The loop does not end when
  \<^verbatim>\<open>write\<close> keeps returning zero.
\<close>

partial_function (option) write_loop ::
  "(nat \<Rightarrow> int) \<Rightarrow> nat \<Rightarrow> byte list \<Rightarrow> nat \<Rightarrow> byte list \<Rightarrow> (bool \<times> byte list) option" where
  "write_loop w k data position out =
     (if position < length data then
        (if w k < 0 then Some (False, out)
         else write_loop w (Suc k) data
                (position + min (nat (w k)) (length data - position))
                (out @ take (min (nat (w k)) (length data - position)) (drop position data)))
      else Some (True, out))"

definition WriteToFileAtomic ::
  "env \<Rightarrow> FilePath \<Rightarrow> byte list \<Rightarrow> int \<Rightarrow> filesystem \<Rightarrow> (bool \<times> filesystem) option" where
  "WriteToFileAtomic e path data mode fs =
     (case (if \<not> DirectoryExists fs (DirName path) then CreateDirectory e (DirName path) fs
            else (True, fs)) of
        (False, fs1) \<Rightarrow> Some (False, fs1)
      | (True, fs1) \<Rightarrow>
          (let random_suffix = GetRandomSuffix (rand_bytes e) in
           if random_suffix = [] then Some (False, fs1)
           else
             (let temp_name = AddExtension path random_suffix in
              case open_creat_excl e AtOpenTemp fs1 temp_name mode of
                None \<Rightarrow> Some (False, unlink e fs1 temp_name)
              | Some fs2 \<Rightarrow>
                 (case write_loop (write_result e) 0 data 0 [] of
                    None \<Rightarrow> None
                  | Some (written, out) \<Rightarrow>
                      if \<not> written then Some (False, unlink e (set_contents fs2 temp_name out) temp_name)
                      else if fails e AtFdatasync
                      then Some (False, unlink e (set_contents fs2 temp_name out) temp_name)
                      else if fails e AtClose
                      then Some (False, unlink e (set_durable (set_contents fs2 temp_name out) temp_name)
                                         temp_name)
                      else
                        (case rename e (set_durable (set_contents fs2 temp_name out) temp_name)
                                temp_name path of
                           (False, fs5) \<Rightarrow> Some (False, unlink e fs5 temp_name)
                         | (True, fs5) \<Rightarrow> Some (True, fs5))))))"

subsection \<open>Environments and file systems used as examples\<close>

text \<open>
  An environment in which no call fails and \<^verbatim>\<open>write\<close> takes two bytes at a time, and a
  file system with a directory and a file in it.
\<close>

definition plain_env :: env where
  "plain_env = \<lparr>euid = 1000, egid = 1000, umask = 18, fails = (\<lambda>site. False),
                write_result = (\<lambda>k. 2), rand_bytes = (\<lambda>i. 0)\<rparr>"

definition old_conf :: inode where
  "old_conf = \<lparr>contents = [9, 9], st_mode = 420, st_uid = 1000, st_gid = 1000, durable = True\<rparr>"

definition etc_fs :: filesystem where
  "etc_fs = [[''etc''] \<mapsto> Directory, [''etc'', ''conf''] \<mapsto> RegularFile old_conf]"



section \<open>Properties of the message loop\<close>

subsection \<open>Task ids\<close>

lemma NextTaskId_Some_aux:
  "NextTaskId s = Some r \<Longrightarrow>
     fst r \<noteq> 0 \<and> delayed_tasks s (fst r) = None \<and> io_tasks s (fst r) = None
       \<and> snd r = s\<lparr>last_id := fst r\<rparr>"
proof (induction s r rule: NextTaskId.raw_induct[rotated 1, consumes 1, case_names step])
  case (step NextTaskId s r)
  show ?case
  proof (cases "last_id s + 1 = 0 \<or> delayed_tasks s (last_id s + 1) \<noteq> None
          \<or> io_tasks s (last_id s + 1) \<noteq> None")
    case True
    with step(2) have "NextTaskId (s\<lparr>last_id := last_id s + 1\<rparr>) = Some r" by simp
    from step(1)[OF this] show ?thesis by simp
  next
    case False
    with step(2) show ?thesis by auto
  qed
qed

lemma NextTaskId_Some:
  "NextTaskId s = Some (tid, s') \<Longrightarrow>
     tid \<noteq> 0 \<and> delayed_tasks s tid = None \<and> io_tasks s tid = None \<and> s' = s\<lparr>last_id := tid\<rparr>"
  using NextTaskId_Some_aux[of s "(tid, s')"] by simp

lemma NextTaskId_returns_aux:
  "unat (tid - (last_id s + 1)) = d \<Longrightarrow> tid \<noteq> 0 \<Longrightarrow> delayed_tasks s tid = None \<Longrightarrow>
     io_tasks s tid = None \<Longrightarrow> \<exists>r. NextTaskId s = Some r"
proof (induction d arbitrary: s)
  case 0
  then have "tid = last_id s + 1" by (simp add: unat_eq_0)
  with 0 show ?case by (subst NextTaskId.simps) simp
next
  case (Suc d)
  show ?case
  proof (cases "last_id s + 1 = 0 \<or> delayed_tasks s (last_id s + 1) \<noteq> None
          \<or> io_tasks s (last_id s + 1) \<noteq> None")
    case False
    then show ?thesis by (subst NextTaskId.simps) simp
  next
    case True
    have ne: "tid - (last_id s + 1) \<noteq> 0" using Suc.prems(1) by (auto simp: unat_eq_0)
    have "unat (tid - (last_id s + 1) - 1) = d"
      using Suc.prems(1) unat_minus_one[OF ne] by presburger
    moreover have "tid - (last_id s + 1) - 1 = tid - (last_id (s\<lparr>last_id := last_id s + 1\<rparr>) + 1)"
      by simp
    ultimately have "unat (tid - (last_id (s\<lparr>last_id := last_id s + 1\<rparr>) + 1)) = d"
      by metis
    from Suc.IH[OF this] Suc.prems have "\<exists>r. NextTaskId (s\<lparr>last_id := last_id s + 1\<rparr>) = Some r"
      by simp
    with True show ?thesis by (subst NextTaskId.simps) simp
  qed
qed

lemma NextTaskId_returns:
  assumes "tid \<noteq> 0" "delayed_tasks s tid = None" "io_tasks s tid = None"
  shows "\<exists>n. NextTaskId s = Some (n, s\<lparr>last_id := n\<rparr>)"
proof -
  from NextTaskId_returns_aux[OF refl assms] obtain r where r: "NextTaskId s = Some r" by blast
  from NextTaskId_Some_aux[OF r] have "r = (fst r, s\<lparr>last_id := fst r\<rparr>)"
    by (cases r) simp
  with r show ?thesis by metis
qed

lemma PostDelayedTask_Inr:
  assumes "PostDelayedTask l c d s = Inr (tid, s')"
  shows "\<exists>n. n \<noteq> 0 \<and> delayed_tasks s n = None \<and> io_tasks s n = None \<and>
           (if accepts_tasks (base_loop s)
            then tid = n \<and> s' = s\<lparr>last_id := n, delayed_tasks :=
                    (delayed_tasks s)(n \<mapsto> \<lparr>location = l, task_id = n, closure = c\<rparr>)\<rparr>
            else tid = kTaskIdNull \<and> s' = s\<lparr>last_id := n\<rparr>)"
proof (cases "NextTaskId s")
  case None
  with assms show ?thesis by (simp add: PostDelayedTask_def)
next
  case (Some r)
  obtain n s1 where r: "r = (n, s1)" by (cases r)
  from NextTaskId_Some[OF Some[unfolded r]] have n: "n \<noteq> 0" "delayed_tasks s n = None"
    "io_tasks s n = None" "s1 = s\<lparr>last_id := n\<rparr>" by simp_all
  from assms Some r n show ?thesis
    by (auto simp: PostDelayedTask_def base_PostDelayedTask_def emplace_def split: if_splits)
qed

lemma WatchFileDescriptor_Inr:
  assumes "WatchFileDescriptor l fd mode pers c s = Inr (tid, s')"
  shows "(if fd < 0 \<or> (\<exists>v. mode = kWatchOther v) then tid = kTaskIdNull \<and> s' = s
          else \<exists>n. n \<noteq> 0 \<and> delayed_tasks s n = None \<and> io_tasks s n = None \<and>
           (if accepts_watch (base_loop s) fd
            then tid = n \<and> s' = s\<lparr>last_id := n, io_tasks :=
                    (io_tasks s)(n \<mapsto> \<lparr>io_location = l, io_task_id = n, persistent = pers,
                       io_closure = c,
                       fd_watcher = Some (fd, if mode = kWatchRead then WATCH_READ else WATCH_WRITE)\<rparr>)\<rparr>
            else tid = kTaskIdNull \<and> s' = s\<lparr>last_id := n\<rparr>))"
proof (cases "fd < 0 \<or> (\<exists>v. mode = kWatchOther v)")
  case True
  with assms show ?thesis by (auto simp: WatchFileDescriptor_def split: if_splits)
next
  case False
  then have m: "fd \<ge> 0" "mode = kWatchRead \<or> mode = kWatchWrite" by (cases mode; simp)+
  show ?thesis
  proof (cases "NextTaskId s")
    case None
    with assms m show ?thesis by (auto simp: WatchFileDescriptor_def)
  next
    case (Some r)
    obtain n s1 where r: "r = (n, s1)" by (cases r)
    from NextTaskId_Some[OF Some[unfolded r]] have n: "n \<noteq> 0" "delayed_tasks s n = None"
      "io_tasks s n = None" "s1 = s\<lparr>last_id := n\<rparr>" by simp_all
    have restore: "(io_tasks s)(n := None) = io_tasks s"
      using n(3) by (simp add: fun_eq_iff)
    from assms Some r n m False show ?thesis
      by (auto simp: WatchFileDescriptor_def base_WatchFileDescriptor_def emplace_def Let_def restore
               split: if_splits)
  qed
qed

subsection \<open>Commands of a callback\<close>

lemma CancelTask_cases:
  "CancelTask tid s =
     (if tid = kTaskIdNull then (False, s)
      else case delayed_tasks s tid of
        None \<Rightarrow> (if io_tasks s tid = None then (False, s)
                 else (True, s\<lparr>io_tasks := (io_tasks s)(tid := None)\<rparr>))
      | Some t \<Rightarrow> (if closure t = NullClosure then (False, s)
                   else (True, s\<lparr>delayed_tasks := (delayed_tasks s)(tid \<mapsto> t\<lparr>closure := NullClosure\<rparr>)\<rparr>)))"
  by (auto simp: CancelTask_def is_null_def split: option.splits)

text \<open>Every command leaves the run-once flag alone and observes no invocation.\<close>

lemma run_cmd_observed:
  "run_cmd c s = Inr s' \<Longrightarrow>
     run_once s' = run_once s \<and> (\<exists>xs. observed s' = observed s @ xs \<and> Invoked \<notin> set xs)"
proof (cases c)
  case (DoCancelTask tid)
  then show "run_cmd c s = Inr s' \<Longrightarrow> ?thesis"
    by (auto simp: CancelTask_cases observe_def split: if_splits option.splits)
next
  case (DoPostDelayedTask l cl d)
  assume r: "run_cmd c s = Inr s'"
  then obtain tid s1 where p: "PostDelayedTask l cl d s = Inr (tid, s1)"
     and s': "s' = observe (PostReturned tid) s1"
    using DoPostDelayedTask by (auto split: sum.splits)
  from PostDelayedTask_Inr[OF p] s' show ?thesis
    by (auto simp: observe_def split: if_splits)
next
  case (DoWatchFileDescriptor l fd mode pers cl)
  assume r: "run_cmd c s = Inr s'"
  then obtain tid s1 where p: "WatchFileDescriptor l fd mode pers cl s = Inr (tid, s1)"
     and s': "s' = observe (WatchReturned tid) s1"
    using DoWatchFileDescriptor by (auto split: sum.splits)
  from WatchFileDescriptor_Inr[OF p] s' show ?thesis
    by (auto simp: observe_def split: if_splits)
qed (auto simp: observe_def BreakLoop_def)

lemma run_cmds_observed:
  "run_cmds cs s = Inr s' \<Longrightarrow>
     run_once s' = run_once s \<and> (\<exists>xs. observed s' = observed s @ xs \<and> Invoked \<notin> set xs)"
proof (induction cs arbitrary: s)
  case Nil
  then show ?case by simp
next
  case (Cons c cs)
  then obtain s1 where c: "run_cmd c s = Inr s1" and cs: "run_cmds cs s1 = Inr s'"
    by (auto split: sum.splits)
  from run_cmd_observed[OF c] Cons.IH[OF cs] show ?case by auto
qed

lemma run_cmd_Inr_elim:
  assumes "run_cmd c s = Inr s'"
  obtains
    (Note) n where "c = Note n" "s' = observe (Noted n) s"
  | (Cancel) tid where "c = DoCancelTask tid"
      "s' = observe (CancelReturned tid (fst (CancelTask tid s))) (snd (CancelTask tid s))"
  | (Post) l cl d tid s1 where "c = DoPostDelayedTask l cl d"
      "PostDelayedTask l cl d s = Inr (tid, s1)" "s' = observe (PostReturned tid) s1"
  | (Watch) l fd mode pers cl tid s1 where "c = DoWatchFileDescriptor l fd mode pers cl"
      "WatchFileDescriptor l fd mode pers cl s = Inr (tid, s1)" "s' = observe (WatchReturned tid) s1"
  | (Break) "c = DoBreakLoop" "s' = BreakLoop s"
  using assms by (cases c) (auto split: sum.splits prod.splits)

lemma run_cmds_Cons_Inr:
  "run_cmds (c # cs) s = Inr s' \<Longrightarrow> \<exists>s1. run_cmd c s = Inr s1 \<and> run_cmds cs s1 = Inr s'"
  by (auto split: sum.splits)

text \<open>A delayed record whose closure is null stays as it is while commands run, and a
  cancel of its id returns false.\<close>

lemma run_cmd_null_delayed:
  assumes "run_cmd c s = Inr s'" "delayed_tasks s tid = Some t" "closure t = NullClosure"
  shows "delayed_tasks s' tid = Some t \<and>
         (\<exists>xs. observed s' = observed s @ xs \<and> CancelReturned tid True \<notin> set xs)"
  using assms(1)
proof (cases rule: run_cmd_Inr_elim)
  case (Cancel tid')
  with assms(2,3) show ?thesis
    by (auto simp: CancelTask_cases observe_def split: option.splits)
next
  case (Post l cl d tid' s1)
  from PostDelayedTask_Inr[OF Post(2)] Post(3) assms(2,3) show ?thesis
    by (auto simp: observe_def split: if_splits)
next
  case (Watch l fd mode pers cl tid' s1)
  from WatchFileDescriptor_Inr[OF Watch(2)] Watch(3) assms(2,3) show ?thesis
    by (auto simp: observe_def split: if_splits)
qed (use assms(2,3) in \<open>auto simp: observe_def BreakLoop_def\<close>)

lemma run_cmds_null_delayed:
  "run_cmds cs s = Inr s' \<Longrightarrow> delayed_tasks s tid = Some t \<Longrightarrow> closure t = NullClosure \<Longrightarrow>
     delayed_tasks s' tid = Some t \<and>
     (\<exists>xs. observed s' = observed s @ xs \<and> CancelReturned tid True \<notin> set xs)"
proof (induction cs arbitrary: s)
  case Nil
  then show ?case by simp
next
  case (Cons c cs)
  from run_cmds_Cons_Inr[OF Cons.prems(1)] obtain s1
    where c: "run_cmd c s = Inr s1" and cs: "run_cmds cs s1 = Inr s'" by blast
  from run_cmd_null_delayed[OF c Cons.prems(2,3)]
  have 1: "delayed_tasks s1 tid = Some t"
    and 2: "\<exists>xs. observed s1 = observed s @ xs \<and> CancelReturned tid True \<notin> set xs" by simp_all
  from Cons.IH[OF cs 1 Cons.prems(3)] 2 show ?case by auto
qed

text \<open>An id bound in neither store stays unbound, and a cancel of it returns false, as
  long as no registration returns that id.\<close>

lemma run_cmd_unbound:
  assumes "run_cmd c s = Inr s'" "delayed_tasks s tid = None" "io_tasks s tid = None"
  shows "\<exists>xs. observed s' = observed s @ xs \<and>
           (PostReturned tid \<notin> set xs \<and> WatchReturned tid \<notin> set xs \<longrightarrow>
              delayed_tasks s' tid = None \<and> io_tasks s' tid = None \<and>
              CancelReturned tid True \<notin> set xs)"
  using assms(1)
proof (cases rule: run_cmd_Inr_elim)
  case (Cancel tid')
  with assms(2,3) show ?thesis
    by (auto simp: CancelTask_cases observe_def split: option.splits)
next
  case (Post l cl d tid' s1)
  from PostDelayedTask_Inr[OF Post(2)] Post(3) assms(2,3) show ?thesis
    by (auto simp: observe_def split: if_splits)
next
  case (Watch l fd mode pers cl tid' s1)
  from WatchFileDescriptor_Inr[OF Watch(2)] Watch(3) assms(2,3) show ?thesis
    by (auto simp: observe_def split: if_splits)
qed (use assms(2,3) in \<open>auto simp: observe_def BreakLoop_def\<close>)

lemma run_cmds_unbound:
  "run_cmds cs s = Inr s' \<Longrightarrow> delayed_tasks s tid = None \<Longrightarrow> io_tasks s tid = None \<Longrightarrow>
     \<exists>xs. observed s' = observed s @ xs \<and>
           (PostReturned tid \<notin> set xs \<and> WatchReturned tid \<notin> set xs \<longrightarrow>
              delayed_tasks s' tid = None \<and> io_tasks s' tid = None \<and>
              CancelReturned tid True \<notin> set xs)"
proof (induction cs arbitrary: s)
  case Nil
  then show ?case by simp
next
  case (Cons c cs)
  from run_cmds_Cons_Inr[OF Cons.prems(1)] obtain s1
    where c: "run_cmd c s = Inr s1" and cs: "run_cmds cs s1 = Inr s'" by blast
  from run_cmd_unbound[OF c Cons.prems(2,3)] obtain xs where
    xs: "observed s1 = observed s @ xs"
      "PostReturned tid \<notin> set xs \<and> WatchReturned tid \<notin> set xs \<longrightarrow>
              delayed_tasks s1 tid = None \<and> io_tasks s1 tid = None \<and>
              CancelReturned tid True \<notin> set xs" by blast
  show ?case
  proof (cases "PostReturned tid \<notin> set xs \<and> WatchReturned tid \<notin> set xs")
    case True
    with xs(2) have "delayed_tasks s1 tid = None" "io_tasks s1 tid = None"
      "CancelReturned tid True \<notin> set xs" by simp_all
    from Cons.IH[OF cs this(1,2)] this(3) xs(1) show ?thesis by auto
  next
    case False
    from run_cmds_observed[OF cs] obtain ys where "observed s' = observed s1 @ ys" by blast
    with xs(1) False show ?thesis by auto
  qed
qed

text \<open>A watch record stays in the store while commands run, unless a cancel of its id
  returns true.\<close>

lemma run_cmd_io_kept:
  assumes "run_cmd c s = Inr s'" "io_tasks s tid = Some this" "delayed_tasks s tid = None"
  shows "observed s' = observed s @ observed_since s s' \<and> delayed_tasks s' tid = None \<and>
           (if CancelReturned tid True \<in> set (observed_since s s') then io_tasks s' tid = None
            else io_tasks s' tid = Some this)"
  using assms(1)
proof (cases rule: run_cmd_Inr_elim)
  case (Cancel tid')
  with assms(2,3) show ?thesis
    by (auto simp: CancelTask_cases observe_def observed_since_def split: option.splits)
next
  case (Post l cl d tid' s1)
  from PostDelayedTask_Inr[OF Post(2)] Post(3) assms(2,3) show ?thesis
    by (auto simp: observe_def observed_since_def split: if_splits)
next
  case (Watch l fd mode pers cl tid' s1)
  from WatchFileDescriptor_Inr[OF Watch(2)] Watch(3) assms(2,3) show ?thesis
    by (auto simp: observe_def observed_since_def split: if_splits)
qed (use assms(2,3) in \<open>auto simp: observe_def BreakLoop_def observed_since_def\<close>)

lemma run_cmds_io_kept:
  "run_cmds cs s = Inr s' \<Longrightarrow> io_tasks s tid = Some this \<Longrightarrow> delayed_tasks s tid = None \<Longrightarrow>
     \<exists>xs. observed s' = observed s @ xs \<and>
       (CancelReturned tid True \<notin> set xs \<longrightarrow> io_tasks s' tid = Some this \<and> delayed_tasks s' tid = None)"
proof (induction cs arbitrary: s)
  case Nil
  then show ?case by simp
next
  case (Cons c cs)
  from run_cmds_Cons_Inr[OF Cons.prems(1)] obtain s1
    where c: "run_cmd c s = Inr s1" and cs: "run_cmds cs s1 = Inr s'" by blast
  from run_cmd_io_kept[OF c Cons.prems(2,3)] obtain xs where
    xs: "observed s1 = observed s @ xs" "delayed_tasks s1 tid = None"
      "if CancelReturned tid True \<in> set xs then io_tasks s1 tid = None
            else io_tasks s1 tid = Some this" by metis
  show ?case
  proof (cases "CancelReturned tid True \<in> set xs")
    case False
    with xs(3) have "io_tasks s1 tid = Some this" by simp
    from Cons.IH[OF cs this xs(2)] False xs(1) show ?thesis by auto
  next
    case True
    from run_cmds_observed[OF cs] obtain ys where "observed s' = observed s1 @ ys" by blast
    with xs(1) True show ?thesis by auto
  qed
qed

subsection \<open>The invariant\<close>

text \<open>In a well-formed state a watch record sits under its own id, which no delayed task has.\<close>

lemma well_formed_io_record:
  assumes "well_formed s" "io_tasks s tid = Some this"
  shows "io_task_id this = tid \<and> delayed_tasks s tid = None"
proof
  from assms show "io_task_id this = tid" unfolding well_formed_def by blast
  show "delayed_tasks s tid = None"
  proof (cases "delayed_tasks s tid")
    case (Some t)
    with assms(1) have "io_tasks s tid = None" unfolding well_formed_def by blast
    with assms(2) show ?thesis by simp
  qed simp
qed

lemma well_formed_frame:
  "well_formed s \<Longrightarrow> delayed_tasks s' = delayed_tasks s \<Longrightarrow> io_tasks s' = io_tasks s \<Longrightarrow>
     well_formed s'"
  by (simp add: well_formed_def)

lemma well_formed_erase_delayed:
  "well_formed s \<Longrightarrow> well_formed (s\<lparr>delayed_tasks := (delayed_tasks s)(tid := None)\<rparr>)"
  by (auto simp: well_formed_def)

lemma well_formed_erase_io:
  "well_formed s \<Longrightarrow> well_formed (s\<lparr>io_tasks := (io_tasks s)(tid := None)\<rparr>)"
  by (auto simp: well_formed_def)

lemma well_formed_clear_closure:
  "well_formed s \<Longrightarrow> delayed_tasks s tid = Some t \<Longrightarrow>
     well_formed (s\<lparr>delayed_tasks := (delayed_tasks s)(tid \<mapsto> t\<lparr>closure := NullClosure\<rparr>)\<rparr>)"
  by (auto simp: well_formed_def)

lemma well_formed_CancelTask:
  "well_formed s \<Longrightarrow> well_formed (snd (CancelTask tid s))"
  by (auto simp: CancelTask_cases well_formed_def split: option.splits)

lemma well_formed_PostDelayedTask:
  assumes "well_formed s" "PostDelayedTask l c d s = Inr (tid, s')"
  shows "well_formed s'"
  using PostDelayedTask_Inr[OF assms(2)] assms(1)
  by (auto simp: well_formed_def kTaskIdNull_def split: if_splits)

lemma well_formed_WatchFileDescriptor:
  assumes "well_formed s" "WatchFileDescriptor l fd mode pers c s = Inr (tid, s')"
  shows "well_formed s'"
  using WatchFileDescriptor_Inr[OF assms(2)] assms(1)
  by (auto simp: well_formed_def kTaskIdNull_def split: if_splits)

lemma well_formed_observe: "well_formed (observe e s) = well_formed s"
  by (simp add: well_formed_def observe_def)

lemma well_formed_BreakLoop: "well_formed (BreakLoop s) = well_formed s"
  by (simp add: well_formed_def BreakLoop_def)

lemma well_formed_run_cmd:
  assumes "well_formed s" "run_cmd c s = Inr s'"
  shows "well_formed s'"
  using assms(2)
proof (cases rule: run_cmd_Inr_elim)
  case (Cancel tid)
  with well_formed_CancelTask[OF assms(1), of tid] show ?thesis
    by (simp add: well_formed_observe)
next
  case (Post l cl d tid s1)
  with well_formed_PostDelayedTask[OF assms(1) Post(2)] show ?thesis
    by (simp add: well_formed_observe)
next
  case (Watch l fd mode pers cl tid s1)
  with well_formed_WatchFileDescriptor[OF assms(1) Watch(2)] show ?thesis
    by (simp add: well_formed_observe)
qed (use assms(1) in \<open>simp_all add: well_formed_observe well_formed_BreakLoop\<close>)

lemma well_formed_run_cmds:
  "well_formed s \<Longrightarrow> run_cmds cs s = Inr s' \<Longrightarrow> well_formed s'"
proof (induction cs arbitrary: s)
  case Nil
  then show ?case by simp
next
  case (Cons c cs)
  from run_cmds_Cons_Inr[OF Cons.prems(2)] obtain s1
    where c: "run_cmd c s = Inr s1" and cs: "run_cmds cs s1 = Inr s'" by blast
  from Cons.IH[OF well_formed_run_cmd[OF Cons.prems(1) c] cs] show ?case .
qed

lemma well_formed_Closure_Run:
  "well_formed s \<Longrightarrow> Closure_Run c s = Inr s' \<Longrightarrow> well_formed s'"
  by (cases c) (auto intro: well_formed_run_cmds[of "observe Invoked s"] simp: well_formed_observe)

lemma well_formed_stop_if_run_once: "well_formed (stop_if_run_once s) = well_formed s"
  by (simp add: well_formed_def stop_if_run_once_def)

lemma well_formed_OnRanPostedTask:
  assumes "well_formed s" "OnRanPostedTask tid s = Inr s'"
  shows "well_formed s'"
proof (cases "delayed_tasks s tid")
  case None
  with assms(2) show ?thesis by (simp add: OnRanPostedTask_def)
next
  case (Some t)
  show ?thesis
  proof (cases "is_null (closure t)")
    case True
    with assms Some show ?thesis
      by (auto simp: OnRanPostedTask_def well_formed_erase_delayed)
  next
    case False
    with assms(2) Some obtain s2 where
      run: "Closure_Run (closure t)
              (s\<lparr>delayed_tasks := (delayed_tasks s)(tid \<mapsto> t\<lparr>closure := NullClosure\<rparr>)\<rparr>) = Inr s2"
      and s': "s' = (stop_if_run_once s2)
                 \<lparr>delayed_tasks := (delayed_tasks (stop_if_run_once s2))(tid := None)\<rparr>"
      by (auto simp: OnRanPostedTask_def split: sum.splits)
    from well_formed_Closure_Run[OF well_formed_clear_closure[OF assms(1) Some] run]
    have "well_formed (stop_if_run_once s2)" by (simp add: well_formed_stop_if_run_once)
    from well_formed_erase_delayed[OF this] s' show ?thesis by simp
  qed
qed

lemma well_formed_OnFileReady:
  assumes "well_formed s" "OnFileReady this fd s = Inr s'"
  shows "well_formed s'"
proof -
  from assms(2) obtain s0 s2 where
    s0: "s0 = s \<or> s0 = s\<lparr>io_tasks := (io_tasks s)(io_task_id this := None)\<rparr>"
    and run: "Closure_Run (io_closure this) s0 = Inr s2" and s': "s' = stop_if_run_once s2"
    by (auto simp: OnFileReady_def split: sum.splits if_splits)
  from s0 assms(1) have "well_formed s0" by (auto simp: well_formed_erase_io)
  from well_formed_Closure_Run[OF this run] s' show ?thesis
    by (simp add: well_formed_stop_if_run_once)
qed

lemma well_formed_deliver:
  assumes "well_formed s" "deliver n s = Inr s'"
  shows "well_formed s'"
  using assms
  by (auto simp: deliver_def OnFileCanReadWithoutBlocking_def OnFileCanWriteWithoutBlocking_def
           split: notification.splits option.splits BaseMode.splits
           intro: well_formed_OnRanPostedTask well_formed_OnFileReady)

lemma well_formed_pump:
  "well_formed s \<Longrightarrow> pump ns s = Inr s' \<Longrightarrow> well_formed s'"
proof (induction ns arbitrary: s)
  case Nil
  then show ?case by (auto simp: well_formed_def)
next
  case (Cons n ns)
  let ?s0 = "s\<lparr>base_loop := (base_loop s)\<lparr>pending := ns\<rparr>\<rparr>"
  from Cons.prems(2) obtain s1 where d: "deliver n ?s0 = Inr s1"
    and r: "if quit_now (base_loop s1) then s' = s1 else pump ns s1 = Inr s'"
    by (auto split: sum.splits if_splits)
  have "well_formed ?s0" using Cons.prems(1) by (simp add: well_formed_def)
  from well_formed_deliver[OF this d] have "well_formed s1" .
  with r Cons.IH[of s1] show ?case by (auto split: if_splits)
qed

lemma well_formed_RunOnce:
  assumes "well_formed s" "RunOnce may_block s = Inr (did_run, s')"
  shows "well_formed s'"
proof -
  let ?s0 = "s\<lparr>run_once := True\<rparr>"
  let ?s1 = "?s0\<lparr>base_loop := (base_loop ?s0)\<lparr>quit_now := False\<rparr>\<rparr>"
  have wf: "well_formed ?s1" using assms(1) by (simp add: well_formed_def)
  from assms(2) obtain s2 where p: "pump (pending (base_loop ?s0)) ?s1 = Inr s2"
    and s': "s' = s2 \<or> s' = s2\<lparr>run_once := False\<rparr>"
    by (auto simp: RunOnce_def base_Run_def base_RunUntilIdle_def split: sum.splits if_splits)
  from well_formed_pump[OF wf p] s' show ?thesis by (auto simp: well_formed_def)
qed

subsection \<open>The fire paths\<close>

lemma Closure_Run_Inr:
  assumes "Closure_Run c s = Inr s'"
  obtains cs where "c = Bind cs" "run_cmds cs (observe Invoked s) = Inr s'"
  using assms by (cases c) auto

lemma Closure_Run_invocations:
  assumes "Closure_Run c s = Inr s'"
  shows "run_once s' = run_once s \<and> invocations s' = Suc (invocations s)"
proof -
  from assms obtain cs where "run_cmds cs (observe Invoked s) = Inr s'"
    by (rule Closure_Run_Inr)
  from run_cmds_observed[OF this] show ?thesis
    by (auto simp: invocations_def observe_def)
qed

lemma observed_since_append:
  "observed s' = observed s @ xs \<Longrightarrow> observed_since s s' = xs"
  by (simp add: observed_since_def)

lemma observed_since_observe_Invoked:
  "observed s' = observed (observe Invoked s) @ xs \<Longrightarrow> observed_since s s' = Invoked # xs"
  by (simp add: observed_since_def observe_def)

lemma observed_stop_if_run_once [simp]: "observed (stop_if_run_once s) = observed s"
  by (simp add: stop_if_run_once_def)

lemma stores_stop_if_run_once [simp]:
  "delayed_tasks (stop_if_run_once s) = delayed_tasks s"
  "io_tasks (stop_if_run_once s) = io_tasks s"
  by (simp_all add: stop_if_run_once_def)

lemma observed_since_stop_if_run_once [simp]:
  "observed_since s (stop_if_run_once s') = observed_since s s'"
  by (simp add: observed_since_def)

lemma invocations_stop_if_run_once [simp]: "invocations (stop_if_run_once s) = invocations s"
  by (simp add: invocations_def)

lemma deliver_FileReady_unbound:
  "io_tasks s tid = None \<Longrightarrow> deliver (FileReady tid) s = Inr s"
  by (simp add: deliver_def)

lemma deliver_FileReady_bound:
  "io_tasks s tid = Some this \<Longrightarrow> fd_watcher this = Some (fd, m) \<Longrightarrow>
     deliver (FileReady tid) s = OnFileReady this fd s"
  by (cases m)
     (simp_all add: deliver_def OnFileCanReadWithoutBlocking_def OnFileCanWriteWithoutBlocking_def)

subsection \<open>Sequences of actions\<close>

lemma Closure_Run_null_delayed:
  assumes "Closure_Run c s = Inr s'" "delayed_tasks s tid = Some t" "closure t = NullClosure"
  shows "delayed_tasks s' tid = Some t \<and>
         (\<exists>xs. observed s' = observed s @ xs \<and> CancelReturned tid True \<notin> set xs)"
proof -
  from assms(1) obtain cs where cs: "run_cmds cs (observe Invoked s) = Inr s'"
    by (rule Closure_Run_Inr)
  have "delayed_tasks (observe Invoked s) tid = Some t" using assms(2) by (simp add: observe_def)
  from run_cmds_null_delayed[OF cs this assms(3)] obtain xs where
    "delayed_tasks s' tid = Some t" "observed s' = observed (observe Invoked s) @ xs"
    "CancelReturned tid True \<notin> set xs" by blast
  then have "delayed_tasks s' tid = Some t" "observed s' = observed s @ (Invoked # xs)"
    "CancelReturned tid True \<notin> set (Invoked # xs)" by (simp_all add: observe_def)
  then show ?thesis by blast
qed

lemma OnRanPostedTask_null_delayed:
  assumes "OnRanPostedTask tid' s = Inr s'" "tid' \<noteq> tid"
    "delayed_tasks s tid = Some t" "closure t = NullClosure"
  shows "delayed_tasks s' tid = Some t \<and>
         (\<exists>xs. observed s' = observed s @ xs \<and> CancelReturned tid True \<notin> set xs)"
proof (cases "delayed_tasks s tid'")
  case None
  with assms(1) show ?thesis by (simp add: OnRanPostedTask_def)
next
  case (Some t')
  show ?thesis
  proof (cases "is_null (closure t')")
    case True
    with assms Some show ?thesis by (auto simp: OnRanPostedTask_def)
  next
    case False
    let ?s1 = "s\<lparr>delayed_tasks := (delayed_tasks s)(tid' \<mapsto> t'\<lparr>closure := NullClosure\<rparr>)\<rparr>"
    from False assms(1) Some obtain s2 where run: "Closure_Run (closure t') ?s1 = Inr s2"
      and s': "s' = (stop_if_run_once s2)\<lparr>delayed_tasks := (delayed_tasks (stop_if_run_once s2))(tid' := None)\<rparr>"
      by (auto simp: OnRanPostedTask_def split: sum.splits)
    have "delayed_tasks ?s1 tid = Some t" using assms(2,3) by simp
    from Closure_Run_null_delayed[OF run this assms(4)] s' assms(2) show ?thesis by simp
  qed
qed

lemma OnFileReady_null_delayed:
  assumes "OnFileReady this fd s = Inr s'" "delayed_tasks s tid = Some t" "closure t = NullClosure"
  shows "delayed_tasks s' tid = Some t \<and>
         (\<exists>xs. observed s' = observed s @ xs \<and> CancelReturned tid True \<notin> set xs)"
proof -
  from assms(1) obtain s0 s2 where
    s0: "s0 = s \<or> s0 = s\<lparr>io_tasks := (io_tasks s)(io_task_id this := None)\<rparr>"
    and run: "Closure_Run (io_closure this) s0 = Inr s2" and s': "s' = stop_if_run_once s2"
    by (auto simp: OnFileReady_def split: sum.splits if_splits)
  from s0 assms(2) have "delayed_tasks s0 tid = Some t" "observed s0 = observed s" by auto
  with Closure_Run_null_delayed[OF run this(1) assms(3)] s' show ?thesis by simp
qed

lemma deliver_null_delayed:
  assumes "deliver n s = Inr s'" "n \<noteq> TimerFired tid"
    "delayed_tasks s tid = Some t" "closure t = NullClosure"
  shows "delayed_tasks s' tid = Some t \<and>
         (\<exists>xs. observed s' = observed s @ xs \<and> CancelReturned tid True \<notin> set xs)"
proof (cases n)
  case (TimerFired tid')
  with assms(1,2) have "OnRanPostedTask tid' s = Inr s'" "tid' \<noteq> tid" by (simp_all add: deliver_def)
  from OnRanPostedTask_null_delayed[OF this assms(3,4)] show ?thesis .
next
  case (FileReady tid')
  show ?thesis
  proof (cases "\<exists>this fd. OnFileReady this fd s = Inr s'")
    case True
    then obtain this fd where "OnFileReady this fd s = Inr s'" by blast
    from OnFileReady_null_delayed[OF this assms(3,4)] show ?thesis .
  next
    case False
    with assms(1) FileReady have "s' = s"
      by (auto simp: deliver_def OnFileCanReadWithoutBlocking_def OnFileCanWriteWithoutBlocking_def
               split: option.splits BaseMode.splits)
    with assms(3) show ?thesis by simp
  qed
qed

lemma act_null_delayed:
  assumes "act a s = Inr s'" "a \<noteq> Deliver (TimerFired tid)"
    "delayed_tasks s tid = Some t" "closure t = NullClosure"
  shows "delayed_tasks s' tid = Some t \<and>
         (\<exists>xs. observed s' = observed s @ xs \<and> CancelReturned tid True \<notin> set xs)"
proof (cases a)
  case (Call c)
  with assms(1) have "run_cmd c s = Inr s'" by simp
  from run_cmd_null_delayed[OF this assms(3,4)] show ?thesis .
next
  case (Deliver n)
  with assms(1,2) have "deliver n s = Inr s'" "n \<noteq> TimerFired tid" by simp_all
  from deliver_null_delayed[OF this assms(3,4)] show ?thesis .
next
  case (Underlying b)
  with assms(1,3) show ?thesis by auto
qed

lemma acts_null_delayed:
  "acts as s = Inr s' \<Longrightarrow> Deliver (TimerFired tid) \<notin> set as \<Longrightarrow>
     delayed_tasks s tid = Some t \<Longrightarrow> closure t = NullClosure \<Longrightarrow>
     delayed_tasks s' tid = Some t \<and>
     (\<exists>xs. observed s' = observed s @ xs \<and> CancelReturned tid True \<notin> set xs)"
proof (induction as arbitrary: s)
  case Nil
  then show ?case by simp
next
  case (Cons a as)
  from Cons.prems(1) obtain s1 where a: "act a s = Inr s1" and as: "acts as s1 = Inr s'"
    by (auto split: sum.splits)
  from Cons.prems(2) have na: "a \<noteq> Deliver (TimerFired tid)" "Deliver (TimerFired tid) \<notin> set as"
    by auto
  from act_null_delayed[OF a na(1) Cons.prems(3,4)]
  have 1: "delayed_tasks s1 tid = Some t"
    and 2: "\<exists>xs. observed s1 = observed s @ xs \<and> CancelReturned tid True \<notin> set xs" by simp_all
  from Cons.IH[OF as na(2) 1 Cons.prems(4)] 2 show ?case by auto
qed

lemma well_formed_act:
  assumes "well_formed s" "act a s = Inr s'"
  shows "well_formed s'"
proof (cases a)
  case (Call c)
  with assms show ?thesis by (auto intro: well_formed_run_cmd)
next
  case (Deliver n)
  with assms show ?thesis by (auto intro: well_formed_deliver)
next
  case (Underlying b)
  with assms show ?thesis by (auto simp: well_formed_def)
qed

lemma well_formed_acts:
  "well_formed s \<Longrightarrow> acts as s = Inr s' \<Longrightarrow> well_formed s'"
proof (induction as arbitrary: s)
  case Nil
  then show ?case by simp
next
  case (Cons a as)
  from Cons.prems(2) obtain s1 where a: "act a s = Inr s1" and as: "acts as s1 = Inr s'"
    by (auto split: sum.splits)
  from Cons.IH[OF well_formed_act[OF Cons.prems(1) a] as] show ?case .
qed

lemma Closure_Run_unbound:
  assumes "Closure_Run c s = Inr s'" "delayed_tasks s tid = None" "io_tasks s tid = None"
  shows "\<exists>xs. observed s' = observed s @ xs \<and>
           (PostReturned tid \<notin> set xs \<and> WatchReturned tid \<notin> set xs \<longrightarrow>
              delayed_tasks s' tid = None \<and> io_tasks s' tid = None \<and>
              CancelReturned tid True \<notin> set xs)"
proof -
  from assms(1) obtain cs where cs: "run_cmds cs (observe Invoked s) = Inr s'"
    by (rule Closure_Run_Inr)
  have "delayed_tasks (observe Invoked s) tid = None" "io_tasks (observe Invoked s) tid = None"
    using assms(2,3) by (simp_all add: observe_def)
  from run_cmds_unbound[OF cs this] obtain xs where
    xs: "observed s' = observed (observe Invoked s) @ xs"
      "PostReturned tid \<notin> set xs \<and> WatchReturned tid \<notin> set xs \<longrightarrow>
              delayed_tasks s' tid = None \<and> io_tasks s' tid = None \<and>
              CancelReturned tid True \<notin> set xs" by blast
  from xs(1) have "observed s' = observed s @ (Invoked # xs)" by (simp add: observe_def)
  moreover from xs(2) have "PostReturned tid \<notin> set (Invoked # xs) \<and>
       WatchReturned tid \<notin> set (Invoked # xs) \<longrightarrow>
         delayed_tasks s' tid = None \<and> io_tasks s' tid = None \<and>
         CancelReturned tid True \<notin> set (Invoked # xs)" by simp
  ultimately show ?thesis by blast
qed

lemma deliver_unbound:
  assumes "deliver n s = Inr s'" "delayed_tasks s tid = None" "io_tasks s tid = None"
  shows "\<exists>xs. observed s' = observed s @ xs \<and>
           (PostReturned tid \<notin> set xs \<and> WatchReturned tid \<notin> set xs \<longrightarrow>
              delayed_tasks s' tid = None \<and> io_tasks s' tid = None \<and>
              CancelReturned tid True \<notin> set xs)"
proof (cases n)
  case (TimerFired tid')
  with assms(1) have r: "OnRanPostedTask tid' s = Inr s'" by (simp add: deliver_def)
  then obtain t' where t': "delayed_tasks s tid' = Some t'"
    by (cases "delayed_tasks s tid'") (auto simp: OnRanPostedTask_def)
  show ?thesis
  proof (cases "is_null (closure t')")
    case True
    with r t' assms(2,3) show ?thesis by (auto simp: OnRanPostedTask_def)
  next
    case False
    let ?s1 = "s\<lparr>delayed_tasks := (delayed_tasks s)(tid' \<mapsto> t'\<lparr>closure := NullClosure\<rparr>)\<rparr>"
    from False r t' obtain s2 where run: "Closure_Run (closure t') ?s1 = Inr s2"
      and s': "s' = (stop_if_run_once s2)\<lparr>delayed_tasks := (delayed_tasks (stop_if_run_once s2))(tid' := None)\<rparr>"
      by (auto simp: OnRanPostedTask_def split: sum.splits)
    from t' assms(2) have "tid' \<noteq> tid" by auto
    with assms(2,3) have "delayed_tasks ?s1 tid = None" "io_tasks ?s1 tid = None" by simp_all
    from Closure_Run_unbound[OF run this] s' show ?thesis by auto
  qed
next
  case (FileReady tid')
  show ?thesis
  proof (cases "\<exists>this fd. OnFileReady this fd s = Inr s'")
    case True
    then obtain this fd where "OnFileReady this fd s = Inr s'" by blast
    then obtain s0 s2 where
      s0: "s0 = s \<or> s0 = s\<lparr>io_tasks := (io_tasks s)(io_task_id this := None)\<rparr>"
      and run: "Closure_Run (io_closure this) s0 = Inr s2" and s': "s' = stop_if_run_once s2"
      by (auto simp: OnFileReady_def split: sum.splits if_splits)
    from s0 assms(2,3) have "delayed_tasks s0 tid = None" "io_tasks s0 tid = None"
      "observed s0 = observed s" by auto
    with Closure_Run_unbound[OF run this(1,2)] s' show ?thesis by simp
  next
    case False
    with assms(1) FileReady have "s' = s"
      by (auto simp: deliver_def OnFileCanReadWithoutBlocking_def OnFileCanWriteWithoutBlocking_def
               split: option.splits BaseMode.splits)
    with assms(2,3) show ?thesis by simp
  qed
qed

lemma act_unbound:
  assumes "act a s = Inr s'" "delayed_tasks s tid = None" "io_tasks s tid = None"
  shows "\<exists>xs. observed s' = observed s @ xs \<and>
           (PostReturned tid \<notin> set xs \<and> WatchReturned tid \<notin> set xs \<longrightarrow>
              delayed_tasks s' tid = None \<and> io_tasks s' tid = None \<and>
              CancelReturned tid True \<notin> set xs)"
proof (cases a)
  case (Call c)
  with assms(1) have "run_cmd c s = Inr s'" by simp
  from run_cmd_unbound[OF this assms(2,3)] show ?thesis .
next
  case (Deliver n)
  with assms(1) have "deliver n s = Inr s'" by simp
  from deliver_unbound[OF this assms(2,3)] show ?thesis .
next
  case (Underlying b)
  with assms show ?thesis by auto
qed

lemma Closure_Run_observed:
  assumes "Closure_Run c s = Inr s'"
  shows "\<exists>xs. observed s' = observed s @ xs"
proof -
  from assms obtain cs where "run_cmds cs (observe Invoked s) = Inr s'"
    by (rule Closure_Run_Inr)
  from run_cmds_observed[OF this] obtain xs where "observed s' = observed (observe Invoked s) @ xs"
    by blast
  then have "observed s' = observed s @ (Invoked # xs)" by (simp add: observe_def)
  then show ?thesis ..
qed

lemma OnRanPostedTask_observed:
  assumes "OnRanPostedTask tid s = Inr s'"
  shows "\<exists>xs. observed s' = observed s @ xs"
proof -
  from assms obtain t where t: "delayed_tasks s tid = Some t"
    by (cases "delayed_tasks s tid") (auto simp: OnRanPostedTask_def)
  show ?thesis
  proof (cases "is_null (closure t)")
    case True
    with assms t show ?thesis by (auto simp: OnRanPostedTask_def)
  next
    case False
    let ?s1 = "s\<lparr>delayed_tasks := (delayed_tasks s)(tid \<mapsto> t\<lparr>closure := NullClosure\<rparr>)\<rparr>"
    from False assms t obtain s2 where run: "Closure_Run (closure t) ?s1 = Inr s2"
      and s': "observed s' = observed s2"
      by (auto simp: OnRanPostedTask_def split: sum.splits)
    from Closure_Run_observed[OF run] s' show ?thesis by simp
  qed
qed

lemma OnFileReady_observed:
  assumes "OnFileReady this fd s = Inr s'"
  shows "\<exists>xs. observed s' = observed s @ xs"
proof -
  from assms obtain s0 s2 where
    s0: "s0 = s \<or> s0 = s\<lparr>io_tasks := (io_tasks s)(io_task_id this := None)\<rparr>"
    and run: "Closure_Run (io_closure this) s0 = Inr s2" and s': "s' = stop_if_run_once s2"
    by (auto simp: OnFileReady_def split: sum.splits if_splits)
  from s0 have "observed s0 = observed s" by auto
  with Closure_Run_observed[OF run] s' show ?thesis by simp
qed

lemma deliver_observed:
  assumes "deliver n s = Inr s'"
  shows "\<exists>xs. observed s' = observed s @ xs"
proof (cases n)
  case (TimerFired tid)
  with assms show ?thesis by (auto simp: deliver_def intro: OnRanPostedTask_observed)
next
  case (FileReady tid)
  show ?thesis
  proof (cases "\<exists>this fd. OnFileReady this fd s = Inr s'")
    case True
    then show ?thesis by (auto intro: OnFileReady_observed)
  next
    case False
    with assms FileReady have "s' = s"
      by (auto simp: deliver_def OnFileCanReadWithoutBlocking_def OnFileCanWriteWithoutBlocking_def
               split: option.splits BaseMode.splits)
    then show ?thesis by simp
  qed
qed

lemma act_observed:
  assumes "act a s = Inr s'"
  shows "\<exists>xs. observed s' = observed s @ xs"
proof (cases a)
  case (Call c)
  with assms run_cmd_observed[of c s s'] show ?thesis by auto
next
  case (Deliver n)
  with assms show ?thesis by (auto intro: deliver_observed)
next
  case (Underlying b)
  with assms show ?thesis by auto
qed

lemma acts_observed:
  "acts as s = Inr s' \<Longrightarrow> \<exists>xs. observed s' = observed s @ xs"
proof (induction as arbitrary: s)
  case Nil
  then show ?case by simp
next
  case (Cons a as)
  from Cons.prems(1) obtain s1 where a: "act a s = Inr s1" and as: "acts as s1 = Inr s'"
    by (auto split: sum.splits)
  from act_observed[OF a] Cons.IH[OF as] show ?case by auto
qed

lemma acts_unbound:
  "acts as s = Inr s' \<Longrightarrow> delayed_tasks s tid = None \<Longrightarrow> io_tasks s tid = None \<Longrightarrow>
     \<exists>xs. observed s' = observed s @ xs \<and>
           (PostReturned tid \<notin> set xs \<and> WatchReturned tid \<notin> set xs \<longrightarrow>
              delayed_tasks s' tid = None \<and> io_tasks s' tid = None \<and>
              CancelReturned tid True \<notin> set xs)"
proof (induction as arbitrary: s)
  case Nil
  then show ?case by simp
next
  case (Cons a as)
  from Cons.prems(1) obtain s1 where a: "act a s = Inr s1" and as: "acts as s1 = Inr s'"
    by (auto split: sum.splits)
  from act_unbound[OF a Cons.prems(2,3)] obtain xs where
    xs: "observed s1 = observed s @ xs"
      "PostReturned tid \<notin> set xs \<and> WatchReturned tid \<notin> set xs \<longrightarrow>
              delayed_tasks s1 tid = None \<and> io_tasks s1 tid = None \<and>
              CancelReturned tid True \<notin> set xs" by blast
  show ?case
  proof (cases "PostReturned tid \<notin> set xs \<and> WatchReturned tid \<notin> set xs")
    case True
    with xs(2) have "delayed_tasks s1 tid = None" "io_tasks s1 tid = None"
      "CancelReturned tid True \<notin> set xs" by simp_all
    from Cons.IH[OF as this(1,2)] this(3) xs(1) show ?thesis by auto
  next
    case False
    from acts_observed[OF as] obtain ys where "observed s' = observed s1 @ ys" by blast
    with xs(1) False show ?thesis by auto
  qed
qed

subsection \<open>Cancelling a delayed task\<close>

lemma OnRanPostedTask_null:
  "delayed_tasks s tid = Some t \<Longrightarrow> closure t = NullClosure \<Longrightarrow>
     OnRanPostedTask tid s = Inr (s\<lparr>delayed_tasks := (delayed_tasks s)(tid := None)\<rparr>)"
  by (simp add: OnRanPostedTask_def is_null_def)

text \<open>
  Claim C3. For a non-sentinel id, \<^verbatim>\<open>CancelTask\<close> on a delayed task: a record with a
  non-null closure has the closure cleared and the call returns true; a record whose
  closure is null already, and an id bound in neither store, make the call return false
  and change nothing. For an id that is not a watch, the call returns true exactly when
  a record with a non-null closure exists. After a successful cancel, whatever happens
  to the loop before the timer notification of the task arrives, a further cancel of the
  id returns false, and the notification, when it comes, invokes nothing and removes the
  record: the call returns true at most once for a scheduled task, and the cancelled
  callback never runs.
\<close>

theorem CancelTask_delayed:
  assumes "tid \<noteq> kTaskIdNull"
  shows "(\<forall>t. delayed_tasks s tid = Some t \<and> \<not> is_null (closure t) \<longrightarrow>
            CancelTask tid s =
              (True, s\<lparr>delayed_tasks := (delayed_tasks s)(tid \<mapsto> t\<lparr>closure := NullClosure\<rparr>)\<rparr>))
       \<and> (\<forall>t. delayed_tasks s tid = Some t \<and> is_null (closure t) \<longrightarrow> CancelTask tid s = (False, s))
       \<and> (delayed_tasks s tid = None \<and> io_tasks s tid = None \<longrightarrow> CancelTask tid s = (False, s))
       \<and> (io_tasks s tid = None \<longrightarrow>
            fst (CancelTask tid s) = (\<exists>t. delayed_tasks s tid = Some t \<and> \<not> is_null (closure t)))
       \<and> (\<forall>s1 as s2. delayed_tasks s tid \<noteq> None \<and> CancelTask tid s = (True, s1)
              \<and> acts as s1 = Inr s2 \<and> Deliver (TimerFired tid) \<notin> set as \<longrightarrow>
            CancelTask tid s2 = (False, s2) \<and>
            CancelReturned tid True \<notin> set (observed_since s1 s2) \<and>
            OnRanPostedTask tid s2 = Inr (s2\<lparr>delayed_tasks := (delayed_tasks s2)(tid := None)\<rparr>))"
proof (intro conjI allI impI)
  fix s1 as s2
  assume a: "delayed_tasks s tid \<noteq> None \<and> CancelTask tid s = (True, s1)
               \<and> acts as s1 = Inr s2 \<and> Deliver (TimerFired tid) \<notin> set as"
  then obtain t where t: "delayed_tasks s tid = Some t" by auto
  with a assms have s1: "s1 = s\<lparr>delayed_tasks := (delayed_tasks s)(tid \<mapsto> t\<lparr>closure := NullClosure\<rparr>)\<rparr>"
    by (auto simp: CancelTask_cases split: if_splits)
  let ?t = "t\<lparr>closure := NullClosure\<rparr>"
  have 1: "delayed_tasks s1 tid = Some ?t" "closure ?t = NullClosure" using s1 by simp_all
  from a have run: "acts as s1 = Inr s2" "Deliver (TimerFired tid) \<notin> set as" by simp_all
  from acts_null_delayed[OF run 1] obtain xs where
    2: "delayed_tasks s2 tid = Some ?t" "observed s2 = observed s1 @ xs"
       "CancelReturned tid True \<notin> set xs" by blast
  show "CancelTask tid s2 = (False, s2)" using 2(1) by (simp add: CancelTask_cases)
  show "CancelReturned tid True \<notin> set (observed_since s1 s2)"
    using 2(2,3) by (simp add: observed_since_def)
  show "OnRanPostedTask tid s2 = Inr (s2\<lparr>delayed_tasks := (delayed_tasks s2)(tid := None)\<rparr>)"
    using OnRanPostedTask_null[OF 2(1)] by simp
qed (use assms in \<open>auto simp: CancelTask_cases is_null_def split: option.splits if_splits\<close>)

theorem CancelTask_delayed_witness:
  "(1 :: TaskId) \<noteq> kTaskIdNull \<and>
   fst (CancelTask 1 one_delayed) \<and>
   \<not> fst (CancelTask 1 (snd (CancelTask 1 one_delayed))) \<and>
   CancelTask 2 one_delayed = (False, one_delayed) \<and>
   (\<exists>s2 s3. acts [Call (Note 5), Deliver (FileReady 9)] (snd (CancelTask 1 one_delayed)) = Inr s2 \<and>
      \<not> fst (CancelTask 1 s2) \<and>
      OnRanPostedTask 1 s2 = Inr s3 \<and> observed s3 = [Noted 5] \<and> delayed_tasks s3 1 = None)"
proof -
  have h: "(1 :: TaskId) \<noteq> kTaskIdNull" by (simp add: kTaskIdNull_def)
  have d: "delayed_tasks one_delayed 1 = Some \<lparr>location = ''here'', task_id = 1, closure = Bind [Note 7]\<rparr>"
    by (simp add: one_delayed_def BaseMessageLoop_new_def)
  have n: "delayed_tasks one_delayed 2 = None \<and> io_tasks one_delayed 2 = None"
    by (simp add: one_delayed_def BaseMessageLoop_new_def)
  have h2: "(2 :: TaskId) \<noteq> kTaskIdNull" by (simp add: kTaskIdNull_def)
  note T = CancelTask_delayed[OF h, of one_delayed]
  from T d have c: "CancelTask 1 one_delayed =
     (True, one_delayed\<lparr>delayed_tasks := (delayed_tasks one_delayed)
        (1 \<mapsto> \<lparr>location = ''here'', task_id = 1, closure = NullClosure\<rparr>)\<rparr>)"
    by (simp add: is_null_def)
  let ?s1 = "snd (CancelTask 1 one_delayed)"
  have nd: "Deliver (TimerFired 1) \<notin> set [Call (Note 5), Deliver (FileReady 9)]" by simp
  have "\<exists>s2. acts [Call (Note 5), Deliver (FileReady 9)] ?s1 = Inr s2 \<and> observed s2 = [Noted 5]"
    apply (simp only: c snd_conv)
    apply (simp add: deliver_def observe_def one_delayed_def BaseMessageLoop_new_def)
    done
  then obtain s2 where r: "acts [Call (Note 5), Deliver (FileReady 9)] ?s1 = Inr s2"
    and o: "observed s2 = [Noted 5]" by blast
  have c': "CancelTask 1 one_delayed = (True, ?s1)" using c by simp
  have dn: "delayed_tasks one_delayed 1 \<noteq> None" using d by simp
  from T[THEN conjunct2, THEN conjunct2, THEN conjunct2, THEN conjunct2, rule_format,
         of ?s1 "[Call (Note 5), Deliver (FileReady 9)]" s2] dn c' r nd
  have k: "CancelTask 1 s2 = (False, s2)"
    "OnRanPostedTask 1 s2 = Inr (s2\<lparr>delayed_tasks := (delayed_tasks s2)(1 := None)\<rparr>)"
    by blast+
  from CancelTask_delayed[OF h2, of one_delayed] n
  have two: "CancelTask 2 one_delayed = (False, one_delayed)" by simp
  from k o have "\<not> fst (CancelTask 1 s2) \<and>
      (\<exists>s3. OnRanPostedTask 1 s2 = Inr s3 \<and> observed s3 = [Noted 5] \<and> delayed_tasks s3 1 = None)"
    by simp
  with r have "\<exists>s2 s3. acts [Call (Note 5), Deliver (FileReady 9)] ?s1 = Inr s2 \<and>
      \<not> fst (CancelTask 1 s2) \<and>
      OnRanPostedTask 1 s2 = Inr s3 \<and> observed s3 = [Noted 5] \<and> delayed_tasks s3 1 = None"
    by blast
  moreover have "fst (CancelTask 1 one_delayed)" "\<not> fst (CancelTask 1 ?s1)"
    using c by (simp_all add: CancelTask_cases)
  ultimately show ?thesis using h two by blast
qed

subsection \<open>Firing\<close>

text \<open>
  Claim C2. When the timer notification of a delayed task is consumed and the closure of
  its record is not null, the closure is run on the state in which the record holds a
  null closure already, so that a cancel of the same id at that point returns false. A
  null closure is not run. Whenever the call returns, the record is gone from the
  delayed-task store, no cancel of the id made while the callback ran has returned true,
  and one callback was invoked exactly when the closure was not null.
\<close>

theorem OnRanPostedTask_consumes:
  assumes "delayed_tasks s tid = Some t"
  shows "(\<not> is_null (closure t) \<longrightarrow>
            OnRanPostedTask tid s =
              (case Closure_Run (closure t)
                      (s\<lparr>delayed_tasks := (delayed_tasks s)(tid \<mapsto> t\<lparr>closure := NullClosure\<rparr>)\<rparr>) of
                 Inl f \<Rightarrow> Inl f
               | Inr s2 \<Rightarrow> Inr ((stop_if_run_once s2)\<lparr>delayed_tasks := (delayed_tasks s2)(tid := None)\<rparr>))
          \<and> CancelTask tid (s\<lparr>delayed_tasks := (delayed_tasks s)(tid \<mapsto> t\<lparr>closure := NullClosure\<rparr>)\<rparr>)
              = (False, s\<lparr>delayed_tasks := (delayed_tasks s)(tid \<mapsto> t\<lparr>closure := NullClosure\<rparr>)\<rparr>))
       \<and> (is_null (closure t) \<longrightarrow>
            OnRanPostedTask tid s = Inr (s\<lparr>delayed_tasks := (delayed_tasks s)(tid := None)\<rparr>))
       \<and> (\<forall>s'. OnRanPostedTask tid s = Inr s' \<longrightarrow>
            delayed_tasks s' tid = None \<and>
            CancelReturned tid True \<notin> set (observed_since s s') \<and>
            invocations s' = (if is_null (closure t) then invocations s else Suc (invocations s)))"
proof (intro conjI allI impI)
  let ?s1 = "s\<lparr>delayed_tasks := (delayed_tasks s)(tid \<mapsto> t\<lparr>closure := NullClosure\<rparr>)\<rparr>"
  fix s'
  assume r: "OnRanPostedTask tid s = Inr s'"
  have "delayed_tasks s' tid = None \<and> CancelReturned tid True \<notin> set (observed_since s s') \<and>
        invocations s' = (if is_null (closure t) then invocations s else Suc (invocations s))"
  proof (cases "is_null (closure t)")
    case True
    with r assms show ?thesis
      by (auto simp: OnRanPostedTask_def observed_since_def invocations_def)
  next
    case False
    with r assms obtain s2 where run: "Closure_Run (closure t) ?s1 = Inr s2"
      and s': "s' = (stop_if_run_once s2)\<lparr>delayed_tasks := (delayed_tasks (stop_if_run_once s2))(tid := None)\<rparr>"
      by (auto simp: OnRanPostedTask_def split: sum.splits)
    from run obtain cs where cs: "run_cmds cs (observe Invoked ?s1) = Inr s2"
      by (rule Closure_Run_Inr)
    have "delayed_tasks (observe Invoked ?s1) tid = Some (t\<lparr>closure := NullClosure\<rparr>)"
      by (simp add: observe_def)
    from run_cmds_null_delayed[OF cs this] obtain xs where
      xs: "observed s2 = observed (observe Invoked ?s1) @ xs" "CancelReturned tid True \<notin> set xs"
      by auto
    have "observed s' = observed s2" using s' by simp
    with xs have "observed_since s s' = Invoked # xs"
      by (simp add: observed_since_def observe_def)
    with xs(2) s' False Closure_Run_invocations[OF run] show ?thesis
      by (simp add: invocations_def)
  qed
  then show "delayed_tasks s' tid = None" "CancelReturned tid True \<notin> set (observed_since s s')"
    "invocations s' = (if is_null (closure t) then invocations s else Suc (invocations s))"
    by simp_all
qed (use assms in \<open>auto simp: OnRanPostedTask_def CancelTask_cases split: sum.splits\<close>)

theorem OnRanPostedTask_consumes_witness:
  "delayed_tasks self_cancelling_delayed 1 =
     Some \<lparr>location = ''here'', task_id = 1, closure = Bind [DoCancelTask 1, Note 7]\<rparr> \<and>
   (\<exists>s'. OnRanPostedTask 1 self_cancelling_delayed = Inr s' \<and>
         observed s' = [Invoked, CancelReturned 1 False, Noted 7] \<and>
         delayed_tasks s' 1 = None \<and> invocations s' = 1)"
proof -
  let ?t = "\<lparr>location = ''here'', task_id = 1, closure = Bind [DoCancelTask 1, Note 7]\<rparr>"
  have h: "delayed_tasks self_cancelling_delayed 1 = Some ?t"
    by (simp add: self_cancelling_delayed_def BaseMessageLoop_new_def)
  have nn: "\<not> is_null (closure ?t)" by (simp add: is_null_def)
  have i0: "invocations self_cancelling_delayed = 0"
    by (simp add: invocations_def self_cancelling_delayed_def BaseMessageLoop_new_def)
  note T = OnRanPostedTask_consumes[OF h]
  obtain s' where s': "OnRanPostedTask 1 self_cancelling_delayed = Inr s'"
    and o: "observed s' = [Invoked, CancelReturned 1 False, Noted 7]"
    by (simp add: OnRanPostedTask_def is_null_def CancelTask_def observe_def stop_if_run_once_def
          self_cancelling_delayed_def BaseMessageLoop_new_def idle_base_def kTaskIdNull_def)
  from T s' nn i0 have "delayed_tasks s' 1 = None \<and> invocations s' = 1" by simp
  with h s' o show ?thesis by blast
qed

text \<open>
  Claim C1. Take a one-shot watch in the store, under its own id, which is not the id of
  a delayed task (so it is in every well-formed state). A readiness notification for it
  is delivered, through either entry point of the watcher's delegate, to
  \<^verbatim>\<open>OnFileReady\<close> on that record. There its closure is
  run on the state from which the record has been erased already, so a cancel of the
  same id at that point returns false, and exactly one callback is invoked. From then
  on, through the rest of the callback and whatever happens to the loop afterwards, as
  long as no registration has been handed the same id again: no cancel of the id returns
  true, the id is bound in neither store, and a readiness notification for the id is
  delivered to nobody, the state staying as it is.
\<close>

theorem OnFileReady_one_shot:
  assumes "io_tasks s tid = Some this" "io_task_id this = tid" "\<not> persistent this"
    "delayed_tasks s tid = None"
  shows "(fd_watcher this = Some (fd, m) \<longrightarrow> deliver (FileReady tid) s = OnFileReady this fd s)
       \<and> OnFileCanReadWithoutBlocking this fd s = OnFileReady this fd s
       \<and> OnFileCanWriteWithoutBlocking this fd s = OnFileReady this fd s
       \<and> OnFileReady this fd s =
           (case Closure_Run (io_closure this) (s\<lparr>io_tasks := (io_tasks s)(tid := None)\<rparr>) of
              Inl f \<Rightarrow> Inl f
            | Inr s2 \<Rightarrow> Inr (stop_if_run_once s2))
       \<and> CancelTask tid (s\<lparr>io_tasks := (io_tasks s)(tid := None)\<rparr>)
           = (False, s\<lparr>io_tasks := (io_tasks s)(tid := None)\<rparr>)
       \<and> (\<forall>s'. OnFileReady this fd s = Inr s' \<longrightarrow> invocations s' = Suc (invocations s))
       \<and> (\<forall>s' as s''. OnFileReady this fd s = Inr s' \<and> acts as s' = Inr s'' \<and>
                PostReturned tid \<notin> set (observed_since s s'') \<and>
                WatchReturned tid \<notin> set (observed_since s s'') \<longrightarrow>
            CancelReturned tid True \<notin> set (observed_since s s'') \<and>
            io_tasks s'' tid = None \<and> delayed_tasks s'' tid = None \<and>
            deliver (FileReady tid) s'' = Inr s'')"
proof (intro conjI allI impI)
  assume "fd_watcher this = Some (fd, m)"
  with assms(1) show "deliver (FileReady tid) s = OnFileReady this fd s"
    by (rule deliver_FileReady_bound)
next
  show "OnFileCanReadWithoutBlocking this fd s = OnFileReady this fd s"
    by (simp add: OnFileCanReadWithoutBlocking_def)
  show "OnFileCanWriteWithoutBlocking this fd s = OnFileReady this fd s"
    by (simp add: OnFileCanWriteWithoutBlocking_def)
  let ?s1 = "s\<lparr>io_tasks := (io_tasks s)(tid := None)\<rparr>"
  show "CancelTask tid ?s1 = (False, ?s1)"
    using assms(4) by (simp add: CancelTask_cases)
  have split: "\<exists>s2. Closure_Run (io_closure this) ?s1 = Inr s2 \<and> s' = stop_if_run_once s2"
    if "OnFileReady this fd s = Inr s'" for s'
    using that assms(2,3) by (auto simp: OnFileReady_def split: sum.splits)
  {
    fix s' assume "OnFileReady this fd s = Inr s'"
    from split[OF this] obtain s2 where run: "Closure_Run (io_closure this) ?s1 = Inr s2"
      and s': "s' = stop_if_run_once s2" by blast
    show "invocations s' = Suc (invocations s)"
      using Closure_Run_invocations[OF run] s' by (simp add: invocations_def)
  }
  fix s' as s''
  assume a: "OnFileReady this fd s = Inr s' \<and> acts as s' = Inr s'' \<and>
                PostReturned tid \<notin> set (observed_since s s'') \<and>
                WatchReturned tid \<notin> set (observed_since s s'')"
  from split[of s'] a obtain s2 where run: "Closure_Run (io_closure this) ?s1 = Inr s2"
    and s': "s' = stop_if_run_once s2" by blast
  have "delayed_tasks ?s1 tid = None" "io_tasks ?s1 tid = None" using assms(4) by simp_all
  from Closure_Run_unbound[OF run this] obtain xs where
    xs: "observed s2 = observed ?s1 @ xs"
      "PostReturned tid \<notin> set xs \<and> WatchReturned tid \<notin> set xs \<longrightarrow>
              delayed_tasks s2 tid = None \<and> io_tasks s2 tid = None \<and>
              CancelReturned tid True \<notin> set xs" by blast
  from a have as: "acts as s' = Inr s''" by simp
  from acts_observed[OF as] obtain ys where ys: "observed s'' = observed s' @ ys" by blast
  have os: "observed_since s s'' = xs @ ys"
    using xs(1) ys s' by (simp add: observed_since_def)
  with a xs(2) have r: "delayed_tasks s' tid = None" "io_tasks s' tid = None"
    "CancelReturned tid True \<notin> set xs" using s' by simp_all
  from acts_unbound[OF as r(1,2)] ys obtain
    "PostReturned tid \<notin> set ys \<and> WatchReturned tid \<notin> set ys \<longrightarrow>
              delayed_tasks s'' tid = None \<and> io_tasks s'' tid = None \<and>
              CancelReturned tid True \<notin> set ys" by auto
  with a os have r': "delayed_tasks s'' tid = None" "io_tasks s'' tid = None"
    "CancelReturned tid True \<notin> set ys" by simp_all
  show "CancelReturned tid True \<notin> set (observed_since s s'')" using os r(3) r'(3) by simp
  show "io_tasks s'' tid = None" by (rule r'(2))
  then show "deliver (FileReady tid) s'' = Inr s''" by (rule deliver_FileReady_unbound)
  show "delayed_tasks s'' tid = None" by (rule r'(1))
qed (use assms in \<open>simp add: OnFileReady_def\<close>)

theorem OnFileReady_one_shot_witness:
  "(\<exists>this s'. io_tasks one_shot_watch 1 = Some this \<and> io_task_id this = 1 \<and> \<not> persistent this \<and>
      delayed_tasks one_shot_watch 1 = None \<and> fd_watcher this = Some (3, WATCH_READ) \<and>
      deliver (FileReady 1) one_shot_watch = Inr s' \<and>
      OnFileCanReadWithoutBlocking this 3 one_shot_watch = Inr s' \<and>
      OnFileCanWriteWithoutBlocking this 3 one_shot_watch = Inr s' \<and>
      observed s' = [Invoked, CancelReturned 1 False, Noted 7] \<and>
      io_tasks s' 1 = None \<and> deliver (FileReady 1) s' = Inr s')"
proof -
  let ?w = "\<lparr>io_location = ''here'', io_task_id = 1, persistent = False,
                io_closure = Bind [DoCancelTask 1, Note 7], fd_watcher = Some (3, WATCH_READ)\<rparr>"
  have h: "io_tasks one_shot_watch 1 = Some ?w" "io_task_id ?w = 1" "\<not> persistent ?w"
    "delayed_tasks one_shot_watch 1 = None"
    by (simp_all add: one_shot_watch_def BaseMessageLoop_new_def)
  have fw: "fd_watcher ?w = Some (3, WATCH_READ)" by simp
  note T = OnFileReady_one_shot[OF h, of 3 WATCH_READ]
  obtain s' where d: "deliver (FileReady 1) one_shot_watch = Inr s'"
    and o: "observed s' = [Invoked, CancelReturned 1 False, Noted 7]"
    by (simp add: deliver_def OnFileCanReadWithoutBlocking_def OnFileReady_def CancelTask_def
          observe_def stop_if_run_once_def
          one_shot_watch_def BaseMessageLoop_new_def idle_base_def kTaskIdNull_def)
  from T fw d have s': "OnFileReady ?w 3 one_shot_watch = Inr s'" by simp
  with T have e: "OnFileCanReadWithoutBlocking ?w 3 one_shot_watch = Inr s'"
    "OnFileCanWriteWithoutBlocking ?w 3 one_shot_watch = Inr s'" by simp_all
  have "observed one_shot_watch = []" by (simp add: one_shot_watch_def BaseMessageLoop_new_def)
  with o have "observed_since one_shot_watch s' = [Invoked, CancelReturned 1 False, Noted 7]"
    by (simp add: observed_since_def)
  then have "PostReturned 1 \<notin> set (observed_since one_shot_watch s') \<and>
     WatchReturned 1 \<notin> set (observed_since one_shot_watch s')" by simp
  moreover have "acts [] s' = Inr s'" by simp
  ultimately have "io_tasks s' 1 = None \<and> deliver (FileReady 1) s' = Inr s'"
    using T[THEN conjunct2, THEN conjunct2, THEN conjunct2, THEN conjunct2, THEN conjunct2,
            THEN conjunct2, rule_format, of s' "[]" s'] s'
    by blast
  with h fw d e o show ?thesis by blast
qed

text \<open>
  Claim C7. Take a persistent watch in the store whose id is not the id of a delayed
  task (so it is in every well-formed state). A readiness notification for it runs the
  closure on the state as it is, the record included. When the call returns, one
  callback was invoked, and unless a cancel of the id made by the callback returned
  true, the same record is still in the store and the next readiness notification fires
  it again. Once a cancel of the id has returned true the record is gone, and whatever
  happens to the loop afterwards, as long as no registration has been handed the same
  id again, a readiness notification for the id is delivered to nobody.
\<close>

theorem OnFileReady_persistent:
  assumes "io_tasks s tid = Some this" "persistent this" "delayed_tasks s tid = None"
    "fd_watcher this = Some (fd, m)"
  shows "deliver (FileReady tid) s = OnFileReady this fd s
       \<and> OnFileReady this fd s =
           (case Closure_Run (io_closure this) s of
              Inl f \<Rightarrow> Inl f
            | Inr s2 \<Rightarrow> Inr (stop_if_run_once s2))
       \<and> (\<forall>s'. OnFileReady this fd s = Inr s' \<longrightarrow>
            invocations s' = Suc (invocations s) \<and>
            (CancelReturned tid True \<notin> set (observed_since s s') \<longrightarrow>
               io_tasks s' tid = Some this \<and> delayed_tasks s' tid = None \<and>
               deliver (FileReady tid) s' = OnFileReady this fd s'))
       \<and> (\<forall>s1 as s2. CancelTask tid s = (True, s1) \<and> acts as s1 = Inr s2 \<and>
                PostReturned tid \<notin> set (observed_since s1 s2) \<and>
                WatchReturned tid \<notin> set (observed_since s1 s2) \<longrightarrow>
            io_tasks s1 tid = None \<and> io_tasks s2 tid = None \<and>
            deliver (FileReady tid) s2 = Inr s2)"
proof (intro conjI allI impI)
  show "deliver (FileReady tid) s = OnFileReady this fd s"
    using assms(1,4) by (rule deliver_FileReady_bound)
  show "OnFileReady this fd s =
           (case Closure_Run (io_closure this) s of
              Inl f \<Rightarrow> Inl f
            | Inr s2 \<Rightarrow> Inr (stop_if_run_once s2))"
    using assms(2) by (simp add: OnFileReady_def)
next
  fix s1 as s2
  assume a: "CancelTask tid s = (True, s1) \<and> acts as s1 = Inr s2 \<and>
                PostReturned tid \<notin> set (observed_since s1 s2) \<and>
                WatchReturned tid \<notin> set (observed_since s1 s2)"
  with assms(1,3) have u: "io_tasks s1 tid = None" "delayed_tasks s1 tid = None"
    by (auto simp: CancelTask_cases split: if_splits)
  from a have as: "acts as s1 = Inr s2" by simp
  from acts_unbound[OF as u(2,1)] obtain xs where
    xs: "observed s2 = observed s1 @ xs"
      "PostReturned tid \<notin> set xs \<and> WatchReturned tid \<notin> set xs \<longrightarrow>
              delayed_tasks s2 tid = None \<and> io_tasks s2 tid = None \<and>
              CancelReturned tid True \<notin> set xs" by blast
  from xs(1) have "observed_since s1 s2 = xs" by (simp add: observed_since_def)
  with a xs(2) have "io_tasks s2 tid = None" by simp
  with u(1) show "io_tasks s1 tid = None" "io_tasks s2 tid = None"
    "deliver (FileReady tid) s2 = Inr s2"
    by (simp_all add: deliver_FileReady_unbound)
next
  fix s'
  assume a: "OnFileReady this fd s = Inr s'"
  with assms(2) obtain s2 where run: "Closure_Run (io_closure this) s = Inr s2"
    and s': "s' = stop_if_run_once s2"
    by (auto simp: OnFileReady_def split: sum.splits)
  show "invocations s' = Suc (invocations s)"
    using Closure_Run_invocations[OF run] s' by simp
  assume nc: "CancelReturned tid True \<notin> set (observed_since s s')"
  from run obtain cs where cs: "run_cmds cs (observe Invoked s) = Inr s2"
    by (rule Closure_Run_Inr)
  have "io_tasks (observe Invoked s) tid = Some this" "delayed_tasks (observe Invoked s) tid = None"
    using assms(1,3) by (simp_all add: observe_def)
  from run_cmds_io_kept[OF cs this] obtain xs where
    xs: "observed s2 = observed (observe Invoked s) @ xs"
      "CancelReturned tid True \<notin> set xs \<longrightarrow> io_tasks s2 tid = Some this \<and> delayed_tasks s2 tid = None"
    by blast
  have "observed_since s s' = Invoked # xs"
    using xs(1) s' by (simp add: observed_since_def observe_def)
  with nc xs(2) s' show "io_tasks s' tid = Some this" "delayed_tasks s' tid = None" by simp_all
  from deliver_FileReady_bound[OF this(1) assms(4)]
  show "deliver (FileReady tid) s' = OnFileReady this fd s'" .
qed

theorem OnFileReady_persistent_witness:
  "(\<exists>this s' s''. io_tasks persistent_watch 1 = Some this \<and> persistent this \<and>
      delayed_tasks persistent_watch 1 = None \<and> fd_watcher this = Some (3, WATCH_READ) \<and>
      deliver (FileReady 1) persistent_watch = Inr s' \<and> observed s' = [Invoked, Noted 7] \<and>
      io_tasks s' 1 = Some this \<and>
      deliver (FileReady 1) s' = Inr s'' \<and> observed s'' = [Invoked, Noted 7, Invoked, Noted 7] \<and>
      io_tasks (snd (CancelTask 1 s'')) 1 = None \<and>
      deliver (FileReady 1) (snd (CancelTask 1 s'')) = Inr (snd (CancelTask 1 s'')))"
proof -
  let ?w = "\<lparr>io_location = ''here'', io_task_id = 1, persistent = True,
                io_closure = Bind [Note 7], fd_watcher = Some (3, WATCH_READ)\<rparr>"
  have h: "io_tasks persistent_watch 1 = Some ?w" "persistent ?w"
    "delayed_tasks persistent_watch 1 = None" "fd_watcher ?w = Some (3, WATCH_READ)"
    by (simp_all add: persistent_watch_def BaseMessageLoop_new_def)
  note T = OnFileReady_persistent[OF h]
  have o0: "observed persistent_watch = []" by (simp add: persistent_watch_def BaseMessageLoop_new_def)
  obtain s' where s': "OnFileReady ?w 3 persistent_watch = Inr s'"
    and o: "observed s' = [Invoked, Noted 7]"
    by (simp add: OnFileReady_def observe_def stop_if_run_once_def
          persistent_watch_def BaseMessageLoop_new_def idle_base_def)
  from o o0 have os: "observed_since persistent_watch s' = [Invoked, Noted 7]"
    by (simp add: observed_since_def)
  from os have nc: "CancelReturned 1 True \<notin> set (observed_since persistent_watch s')" by simp
  from T s' nc have k: "io_tasks s' 1 = Some ?w" "delayed_tasks s' 1 = None"
    "deliver (FileReady 1) persistent_watch = Inr s'" by metis+
  note T' = OnFileReady_persistent[OF k(1) h(2) k(2) h(4)]
  from s' o obtain s'' where s'': "OnFileReady ?w 3 s' = Inr s''"
    and o': "observed s'' = [Invoked, Noted 7, Invoked, Noted 7]"
    by (auto simp: OnFileReady_def observe_def split: sum.splits)
  from o o' have "CancelReturned 1 True \<notin> set (observed_since s' s'')"
    by (simp add: observed_since_def)
  with T' s'' have k': "io_tasks s'' 1 = Some ?w" "delayed_tasks s'' 1 = None"
    "deliver (FileReady 1) s' = Inr s''" by metis+
  then have c: "CancelTask 1 s'' = (True, snd (CancelTask 1 s''))"
    by (simp add: CancelTask_cases kTaskIdNull_def)
  have e: "acts [] (snd (CancelTask 1 s'')) = Inr (snd (CancelTask 1 s''))"
    "PostReturned 1 \<notin> set (observed_since (snd (CancelTask 1 s'')) (snd (CancelTask 1 s'')))"
    "WatchReturned 1 \<notin> set (observed_since (snd (CancelTask 1 s'')) (snd (CancelTask 1 s'')))"
    by (simp_all add: observed_since_def)
  from OnFileReady_persistent[OF k'(1) h(2) k'(2) h(4), THEN conjunct2, THEN conjunct2,
         THEN conjunct2, rule_format, of "snd (CancelTask 1 s'')" "[]" "snd (CancelTask 1 s'')"] c e
  have "io_tasks (snd (CancelTask 1 s'')) 1 = None \<and>
      deliver (FileReady 1) (snd (CancelTask 1 s'')) = Inr (snd (CancelTask 1 s''))" by blast
  with h k k' o o' show ?thesis by blast
qed

subsection \<open>Allocation and registration\<close>

lemma well_formed_new: "well_formed (BaseMessageLoop_new b)"
  by (simp add: well_formed_def BaseMessageLoop_new_def)

lemma PostDelayedTask_returns:
  assumes "tid \<noteq> 0" "delayed_tasks s tid = None" "io_tasks s tid = None"
  shows "\<exists>r. PostDelayedTask l c d s = Inr r"
proof -
  from NextTaskId_returns[OF assms] obtain n where "NextTaskId s = Some (n, s\<lparr>last_id := n\<rparr>)" ..
  then show ?thesis by (simp add: PostDelayedTask_def)
qed

lemma WatchFileDescriptor_returns:
  assumes "tid \<noteq> 0" "delayed_tasks s tid = None" "io_tasks s tid = None"
  shows "\<exists>r. WatchFileDescriptor l fd mode pers c s = Inr r"
proof -
  from NextTaskId_returns[OF assms] obtain n where n: "NextTaskId s = Some (n, s\<lparr>last_id := n\<rparr>)" ..
  from NextTaskId_Some[OF n] have "io_tasks s n = None" by simp
  with n show ?thesis
    by (cases mode) (simp_all add: WatchFileDescriptor_def emplace_def Let_def)
qed

text \<open>
  Claim C4. In a well-formed state, the id \<^verbatim>\<open>NextTaskId\<close> returns is not the sentinel and
  is a key of neither store, and \<^verbatim>\<open>NextTaskId\<close> does return when such an id exists. A
  registration that returns an id other than the sentinel returns an id that was bound
  in neither store and is bound in exactly one afterwards. Registration, cancellation,
  the delivery of a notification and \<^verbatim>\<open>RunOnce\<close> keep the state well-formed, and so
  does every sequence of actions; the constructor makes a well-formed state. So at every
  moment in the life of a loop no id is bound in both stores, and none to the sentinel.
\<close>

theorem task_ids_unique:
  assumes "well_formed s"
  shows "(\<forall>tid s'. NextTaskId s = Some (tid, s') \<longrightarrow>
            tid \<noteq> kTaskIdNull \<and> delayed_tasks s tid = None \<and> io_tasks s tid = None \<and>
            delayed_tasks s' = delayed_tasks s \<and> io_tasks s' = io_tasks s)
       \<and> ((\<exists>tid. tid \<noteq> kTaskIdNull \<and> delayed_tasks s tid = None \<and> io_tasks s tid = None) \<longrightarrow>
            (\<exists>r. NextTaskId s = Some r))
       \<and> (\<forall>l c d tid s'. PostDelayedTask l c d s = Inr (tid, s') \<longrightarrow>
            well_formed s' \<and>
            (tid \<noteq> kTaskIdNull \<longrightarrow>
               delayed_tasks s tid = None \<and> io_tasks s tid = None \<and>
               delayed_tasks s' tid = Some \<lparr>location = l, task_id = tid, closure = c\<rparr> \<and>
               io_tasks s' tid = None))
       \<and> (\<forall>l fd mode pers c tid s'. WatchFileDescriptor l fd mode pers c s = Inr (tid, s') \<longrightarrow>
            well_formed s' \<and>
            (tid \<noteq> kTaskIdNull \<longrightarrow>
               delayed_tasks s tid = None \<and> io_tasks s tid = None \<and>
               delayed_tasks s' tid = None \<and>
               (\<exists>t. io_tasks s' tid = Some t \<and> io_task_id t = tid)))
       \<and> (\<forall>tid. well_formed (snd (CancelTask tid s)))
       \<and> (\<forall>n s'. deliver n s = Inr s' \<longrightarrow> well_formed s')
       \<and> (\<forall>may_block r s'. RunOnce may_block s = Inr (r, s') \<longrightarrow> well_formed s')
       \<and> (\<forall>tid. \<not> (delayed_tasks s tid \<noteq> None \<and> io_tasks s tid \<noteq> None))
       \<and> delayed_tasks s kTaskIdNull = None \<and> io_tasks s kTaskIdNull = None
       \<and> (\<forall>as s'. acts as s = Inr s' \<longrightarrow> well_formed s')
       \<and> (\<forall>b as s'. acts as (BaseMessageLoop_new b) = Inr s' \<longrightarrow> well_formed s')"
proof (intro conjI allI impI)
  fix tid s' assume "NextTaskId s = Some (tid, s')"
  from NextTaskId_Some[OF this]
  show "tid \<noteq> kTaskIdNull" "delayed_tasks s tid = None" "io_tasks s tid = None"
    "delayed_tasks s' = delayed_tasks s" "io_tasks s' = io_tasks s"
    by (simp_all add: kTaskIdNull_def)
next
  assume "\<exists>tid. tid \<noteq> kTaskIdNull \<and> delayed_tasks s tid = None \<and> io_tasks s tid = None"
  then obtain tid where "tid \<noteq> 0" "delayed_tasks s tid = None" "io_tasks s tid = None"
    by (auto simp: kTaskIdNull_def)
  from NextTaskId_returns[OF this] show "\<exists>r. NextTaskId s = Some r" by blast
next
  fix l c d tid s' assume p: "PostDelayedTask l c d s = Inr (tid, s')"
  show "well_formed s'" using well_formed_PostDelayedTask[OF assms p] .
  assume "tid \<noteq> kTaskIdNull"
  with PostDelayedTask_Inr[OF p]
  show "delayed_tasks s tid = None" "io_tasks s tid = None"
    "delayed_tasks s' tid = Some \<lparr>location = l, task_id = tid, closure = c\<rparr>"
    "io_tasks s' tid = None"
    by (auto split: if_splits)
next
  fix l fd mode pers c tid s' assume p: "WatchFileDescriptor l fd mode pers c s = Inr (tid, s')"
  show "well_formed s'" using well_formed_WatchFileDescriptor[OF assms p] .
  assume "tid \<noteq> kTaskIdNull"
  with WatchFileDescriptor_Inr[OF p]
  show "delayed_tasks s tid = None" "io_tasks s tid = None" "delayed_tasks s' tid = None"
    "\<exists>t. io_tasks s' tid = Some t \<and> io_task_id t = tid"
    by (auto split: if_splits)
next
  fix tid show "well_formed (snd (CancelTask tid s))" using assms by (rule well_formed_CancelTask)
next
  fix n s' assume "deliver n s = Inr s'"
  with assms show "well_formed s'" by (rule well_formed_deliver)
next
  fix may_block r s' assume "RunOnce may_block s = Inr (r, s')"
  with assms show "well_formed s'" by (rule well_formed_RunOnce)
next
  fix tid show "\<not> (delayed_tasks s tid \<noteq> None \<and> io_tasks s tid \<noteq> None)"
  proof (cases "delayed_tasks s tid")
    case None
    then show ?thesis by simp
  next
    case (Some t)
    with assms have "io_tasks s tid = None" unfolding well_formed_def by blast
    then show ?thesis by simp
  qed
next
  show "delayed_tasks s kTaskIdNull = None" "io_tasks s kTaskIdNull = None"
    using assms by (simp_all add: well_formed_def)
next
  fix as s' assume "acts as s = Inr s'"
  with assms show "well_formed s'" by (rule well_formed_acts)
next
  fix b as s' assume "acts as (BaseMessageLoop_new b) = Inr s'"
  with well_formed_new show "well_formed s'" by (rule well_formed_acts)
qed

theorem task_ids_unique_witness:
  "well_formed (BaseMessageLoop_new idle_base) \<and>
   (\<exists>s1 s2. PostDelayedTask ''a'' (Bind []) 0 (BaseMessageLoop_new idle_base) = Inr (1, s1) \<and>
      well_formed s1 \<and>
      WatchFileDescriptor ''b'' 3 kWatchRead True (Bind []) s1 = Inr (2, s2) \<and>
      well_formed s2 \<and> delayed_tasks s2 1 \<noteq> None \<and> io_tasks s2 1 = None \<and>
      delayed_tasks s2 2 = None \<and> io_tasks s2 2 \<noteq> None)"
proof -
  let ?s0 = "BaseMessageLoop_new idle_base"
  have h: "well_formed ?s0" by (simp add: well_formed_def BaseMessageLoop_new_def)
  have n1: "NextTaskId ?s0 = Some (1, ?s0\<lparr>last_id := 1\<rparr>)"
    by (subst NextTaskId.simps) (simp add: BaseMessageLoop_new_def kTaskIdNull_def)
  define s1 where "s1 = ?s0\<lparr>last_id := 1,
       delayed_tasks := [1 \<mapsto> \<lparr>location = ''a'', task_id = 1, closure = Bind []\<rparr>]\<rparr>"
  have p: "PostDelayedTask ''a'' (Bind []) 0 ?s0 = Inr (1, s1)"
    unfolding PostDelayedTask_def n1 s1_def
    by (simp add: emplace_def base_PostDelayedTask_def BaseMessageLoop_new_def idle_base_def)
  note s1 = s1_def
  note T = task_ids_unique[OF h]
  from T[THEN conjunct2, THEN conjunct2, THEN conjunct1, rule_format, OF p]
  have w1: "well_formed s1" by simp
  have n2: "NextTaskId s1 = Some (2, s1\<lparr>last_id := 2\<rparr>)"
    by (subst NextTaskId.simps) (simp add: s1 BaseMessageLoop_new_def)
  have "\<exists>s2. WatchFileDescriptor ''b'' 3 kWatchRead True (Bind []) s1 = Inr (2, s2)"
    unfolding WatchFileDescriptor_def n2
    by (simp add: emplace_def base_WatchFileDescriptor_def Let_def
          s1 BaseMessageLoop_new_def idle_base_def)
  then obtain s2 where q: "WatchFileDescriptor ''b'' 3 kWatchRead True (Bind []) s1 = Inr (2, s2)" ..
  have two: "(2 :: TaskId) \<noteq> kTaskIdNull"
    by (simp add: kTaskIdNull_def)
  note T1 = task_ids_unique[OF w1]
  from T1[THEN conjunct2, THEN conjunct2, THEN conjunct2, THEN conjunct1, rule_format, OF q] two
  have w2: "well_formed s2" "delayed_tasks s2 2 = None" "io_tasks s2 2 \<noteq> None" by auto
  have d1: "delayed_tasks s2 1 \<noteq> None"
    using WatchFileDescriptor_Inr[OF q] s1
    by (auto simp: BaseMessageLoop_new_def idle_base_def kTaskIdNull_def split: if_splits)
  note T2 = task_ids_unique[OF w2(1)]
  from T2[THEN conjunct2, THEN conjunct2, THEN conjunct2, THEN conjunct2, THEN conjunct2,
          THEN conjunct2, THEN conjunct2, THEN conjunct1, rule_format, of 1] d1
  have "io_tasks s2 1 = None" by simp
  with d1 show ?thesis using h p w1 q w2 by blast
qed

text \<open>
  Claim C5. A registration that is rejected returns the sentinel and leaves both stores
  as they were: \<^verbatim>\<open>PostDelayedTask\<close> when the task runner of the underlying loop does not
  accept the task, \<^verbatim>\<open>WatchFileDescriptor\<close> for a negative descriptor, for a mode that is
  neither \<^verbatim>\<open>kWatchRead\<close> nor \<^verbatim>\<open>kWatchWrite\<close>, and when the underlying loop refuses the
  watch. The two rejections that come after an id was drawn return whenever a free id
  exists.
\<close>

theorem rejected_registration:
  "(\<not> accepts_tasks (base_loop s) \<longrightarrow>
      (\<forall>tid s'. PostDelayedTask l c d s = Inr (tid, s') \<longrightarrow>
         tid = kTaskIdNull \<and> delayed_tasks s' = delayed_tasks s \<and> io_tasks s' = io_tasks s) \<and>
      ((\<exists>n. n \<noteq> kTaskIdNull \<and> delayed_tasks s n = None \<and> io_tasks s n = None) \<longrightarrow>
         (\<exists>s'. PostDelayedTask l c d s = Inr (kTaskIdNull, s'))))
   \<and> (fd < 0 \<longrightarrow> WatchFileDescriptor l fd mode pers c s = Inr (kTaskIdNull, s))
   \<and> (mode \<noteq> kWatchRead \<and> mode \<noteq> kWatchWrite \<longrightarrow>
        WatchFileDescriptor l fd mode pers c s = Inr (kTaskIdNull, s))
   \<and> (\<not> accepts_watch (base_loop s) fd \<longrightarrow>
      (\<forall>tid s'. WatchFileDescriptor l fd mode pers c s = Inr (tid, s') \<longrightarrow>
         tid = kTaskIdNull \<and> delayed_tasks s' = delayed_tasks s \<and> io_tasks s' = io_tasks s) \<and>
      ((\<exists>n. n \<noteq> kTaskIdNull \<and> delayed_tasks s n = None \<and> io_tasks s n = None) \<longrightarrow>
         (\<exists>s'. WatchFileDescriptor l fd mode pers c s = Inr (kTaskIdNull, s'))))"
proof (intro conjI allI impI)
  fix tid s'
  assume a: "\<not> accepts_tasks (base_loop s)" "PostDelayedTask l c d s = Inr (tid, s')"
  from PostDelayedTask_Inr[OF a(2)] a(1)
  show "tid = kTaskIdNull" "delayed_tasks s' = delayed_tasks s" "io_tasks s' = io_tasks s"
    by auto
next
  assume a: "\<not> accepts_tasks (base_loop s)"
    "\<exists>n. n \<noteq> kTaskIdNull \<and> delayed_tasks s n = None \<and> io_tasks s n = None"
  then obtain n where "n \<noteq> 0" "delayed_tasks s n = None" "io_tasks s n = None"
    by (auto simp: kTaskIdNull_def)
  from PostDelayedTask_returns[OF this] obtain r where r: "PostDelayedTask l c d s = Inr r" by blast
  then have "PostDelayedTask l c d s = Inr (fst r, snd r)" by simp
  from PostDelayedTask_Inr[OF this] a(1) have "fst r = kTaskIdNull" by auto
  with r show "\<exists>s'. PostDelayedTask l c d s = Inr (kTaskIdNull, s')" by (cases r) auto
next
  assume "fd < 0"
  then show "WatchFileDescriptor l fd mode pers c s = Inr (kTaskIdNull, s)"
    by (simp add: WatchFileDescriptor_def)
next
  assume "mode \<noteq> kWatchRead \<and> mode \<noteq> kWatchWrite"
  then show "WatchFileDescriptor l fd mode pers c s = Inr (kTaskIdNull, s)"
    by (cases mode) (simp_all add: WatchFileDescriptor_def)
next
  fix tid s'
  assume a: "\<not> accepts_watch (base_loop s) fd" "WatchFileDescriptor l fd mode pers c s = Inr (tid, s')"
  from WatchFileDescriptor_Inr[OF a(2)] a(1)
  show "tid = kTaskIdNull" "delayed_tasks s' = delayed_tasks s" "io_tasks s' = io_tasks s"
    by (auto split: if_splits)
next
  assume a: "\<not> accepts_watch (base_loop s) fd"
    "\<exists>n. n \<noteq> kTaskIdNull \<and> delayed_tasks s n = None \<and> io_tasks s n = None"
  then obtain n where "n \<noteq> 0" "delayed_tasks s n = None" "io_tasks s n = None"
    by (auto simp: kTaskIdNull_def)
  from WatchFileDescriptor_returns[OF this] obtain r
    where r: "WatchFileDescriptor l fd mode pers c s = Inr r" by blast
  then have "WatchFileDescriptor l fd mode pers c s = Inr (fst r, snd r)" by simp
  from WatchFileDescriptor_Inr[OF this] a(1) have "fst r = kTaskIdNull" by (auto split: if_splits)
  with r show "\<exists>s'. WatchFileDescriptor l fd mode pers c s = Inr (kTaskIdNull, s')" by (cases r) auto
qed

theorem rejected_registration_witness:
  "\<not> accepts_tasks (base_loop (BaseMessageLoop_new refusing_base)) \<and>
   \<not> accepts_watch (base_loop (BaseMessageLoop_new refusing_base)) 3 \<and>
   (\<exists>s'. PostDelayedTask ''a'' (Bind []) 0 (BaseMessageLoop_new refusing_base) = Inr (kTaskIdNull, s') \<and>
      delayed_tasks s' = Map.empty \<and> io_tasks s' = Map.empty) \<and>
   WatchFileDescriptor ''b'' (- 1) kWatchRead False (Bind []) (BaseMessageLoop_new idle_base)
     = Inr (kTaskIdNull, BaseMessageLoop_new idle_base) \<and>
   WatchFileDescriptor ''b'' 3 (kWatchOther 2) False (Bind []) (BaseMessageLoop_new idle_base)
     = Inr (kTaskIdNull, BaseMessageLoop_new idle_base) \<and>
   (\<exists>s'. WatchFileDescriptor ''b'' 3 kWatchRead False (Bind []) (BaseMessageLoop_new refusing_base)
            = Inr (kTaskIdNull, s') \<and>
      delayed_tasks s' = Map.empty \<and> io_tasks s' = Map.empty)"
proof -
  let ?r = "BaseMessageLoop_new refusing_base"
  let ?i = "BaseMessageLoop_new idle_base"
  have h1: "\<not> accepts_tasks (base_loop ?r)" and h2: "\<not> accepts_watch (base_loop ?r) 3"
    by (simp_all add: BaseMessageLoop_new_def refusing_base_def)
  have free: "\<exists>n. n \<noteq> kTaskIdNull \<and> delayed_tasks ?r n = None \<and> io_tasks ?r n = None"
    by (rule exI[of _ 1]) (simp add: BaseMessageLoop_new_def kTaskIdNull_def)
  have e: "delayed_tasks ?r = Map.empty" "io_tasks ?r = Map.empty"
    by (simp_all add: BaseMessageLoop_new_def)
  note P = rejected_registration[of ?r "''a''" "Bind []" 0 3 kWatchRead False, THEN conjunct1,
             rule_format, OF h1]
  from P[THEN conjunct2, rule_format, OF free] obtain s' where
    s': "PostDelayedTask ''a'' (Bind []) 0 ?r = Inr (kTaskIdNull, s')" ..
  from P[THEN conjunct1, rule_format, OF s'] e
  have p: "delayed_tasks s' = Map.empty \<and> io_tasks s' = Map.empty" by simp
  note W = rejected_registration[of ?r "''b''" "Bind []" 0 3 kWatchRead False, THEN conjunct2,
             THEN conjunct2, THEN conjunct2, rule_format, OF h2]
  from W[THEN conjunct2, rule_format, OF free] obtain s'' where
    s'': "WatchFileDescriptor ''b'' 3 kWatchRead False (Bind []) ?r = Inr (kTaskIdNull, s'')" ..
  from W[THEN conjunct1, rule_format, OF s''] e
  have w: "delayed_tasks s'' = Map.empty \<and> io_tasks s'' = Map.empty" by simp
  have neg: "(- 1 :: int) < 0" by simp
  note N = rejected_registration[of ?i "''b''" "Bind []" 0 "- 1" kWatchRead False, THEN conjunct2,
             THEN conjunct1, rule_format, OF neg]
  have other: "kWatchOther 2 \<noteq> kWatchRead \<and> kWatchOther 2 \<noteq> kWatchWrite" by simp
  note M = rejected_registration[of ?i "''b''" "Bind []" 0 3 "kWatchOther 2" False, THEN conjunct2,
             THEN conjunct2, THEN conjunct1, rule_format, OF other]
  from h1 h2 s' p s'' w N M show ?thesis by blast
qed

subsection \<open>Running one unit of work\<close>

lemma stop_if_run_once_set:
  "run_once s \<Longrightarrow> \<not> run_once (stop_if_run_once s) \<and> quit_now (base_loop (stop_if_run_once s))"
  by (simp add: stop_if_run_once_def QuitNow_def)

lemma OnRanPostedTask_run_once:
  assumes "run_once s" "OnRanPostedTask tid s = Inr s'"
  shows "(run_once s' \<and> invocations s' = invocations s \<and> base_loop s' = base_loop s)
       \<or> (\<not> run_once s' \<and> quit_now (base_loop s') \<and> invocations s' = Suc (invocations s))"
proof (cases "delayed_tasks s tid")
  case None
  with assms(2) show ?thesis by (simp add: OnRanPostedTask_def)
next
  case (Some t)
  show ?thesis
  proof (cases "is_null (closure t)")
    case True
    with assms Some show ?thesis by (auto simp: OnRanPostedTask_def invocations_def)
  next
    case False
    let ?s1 = "s\<lparr>delayed_tasks := (delayed_tasks s)(tid \<mapsto> t\<lparr>closure := NullClosure\<rparr>)\<rparr>"
    from False assms(2) Some obtain s2 where run: "Closure_Run (closure t) ?s1 = Inr s2"
      and s': "s' = (stop_if_run_once s2)\<lparr>delayed_tasks := (delayed_tasks (stop_if_run_once s2))(tid := None)\<rparr>"
      by (auto simp: OnRanPostedTask_def split: sum.splits)
    from Closure_Run_invocations[OF run] assms(1)
    have "run_once s2" "invocations s2 = Suc (invocations s)" by (simp_all add: invocations_def)
    with stop_if_run_once_set[OF this(1)] s' show ?thesis by (simp add: invocations_def)
  qed
qed

lemma OnFileReady_run_once:
  assumes "run_once s" "OnFileReady this fd s = Inr s'"
  shows "\<not> run_once s' \<and> quit_now (base_loop s') \<and> invocations s' = Suc (invocations s)"
proof -
  from assms(2) obtain s0 s2 where
    s0: "s0 = s \<or> s0 = s\<lparr>io_tasks := (io_tasks s)(io_task_id this := None)\<rparr>"
    and run: "Closure_Run (io_closure this) s0 = Inr s2" and s': "s' = stop_if_run_once s2"
    by (auto simp: OnFileReady_def split: sum.splits if_splits)
  from s0 assms(1) have "run_once s0" "invocations s0 = invocations s"
    by (auto simp: invocations_def)
  with Closure_Run_invocations[OF run] have "run_once s2" "invocations s2 = Suc (invocations s)"
    by simp_all
  with stop_if_run_once_set[OF this(1)] s' show ?thesis by simp
qed

lemma deliver_run_once:
  assumes "run_once s" "deliver n s = Inr s'"
  shows "(run_once s' \<and> invocations s' = invocations s \<and> base_loop s' = base_loop s)
       \<or> (\<not> run_once s' \<and> quit_now (base_loop s') \<and> invocations s' = Suc (invocations s))"
proof (cases n)
  case (TimerFired tid)
  with assms show ?thesis by (auto simp: deliver_def dest: OnRanPostedTask_run_once)
next
  case (FileReady tid)
  show ?thesis
  proof (cases "io_tasks s tid")
    case None
    with FileReady assms show ?thesis by (simp add: deliver_def)
  next
    case (Some this)
    show ?thesis
    proof (cases "fd_watcher this")
      case None
      with Some FileReady assms show ?thesis by (simp add: deliver_def)
    next
      case (Some w)
      obtain fd m where w: "w = (fd, m)" by (cases w)
      from deliver_FileReady_bound[OF \<open>io_tasks s tid = Some this\<close> Some[unfolded w]] FileReady assms(2)
      have "OnFileReady this fd s = Inr s'" by simp
      from OnFileReady_run_once[OF assms(1) this] show ?thesis by simp
    qed
  qed
qed

lemma pump_run_once:
  "run_once s \<Longrightarrow> pump ns s = Inr s' \<Longrightarrow>
     (run_once s' \<and> invocations s' = invocations s)
   \<or> (\<not> run_once s' \<and> quit_now (base_loop s') \<and> invocations s' = Suc (invocations s))"
proof (induction ns arbitrary: s)
  case Nil
  then show ?case by (auto simp: invocations_def)
next
  case (Cons n ns)
  let ?s0 = "s\<lparr>base_loop := (base_loop s)\<lparr>pending := ns\<rparr>\<rparr>"
  from Cons.prems(2) obtain s1 where d: "deliver n ?s0 = Inr s1"
    and r: "if quit_now (base_loop s1) then s' = s1 else pump ns s1 = Inr s'"
    by (auto split: sum.splits if_splits)
  have 0: "run_once ?s0" "invocations ?s0 = invocations s"
    using Cons.prems(1) by (simp_all add: invocations_def)
  from deliver_run_once[OF 0(1) d] 0(2)
  consider (quiet) "run_once s1" "invocations s1 = invocations s"
    | (ran) "\<not> run_once s1" "quit_now (base_loop s1)" "invocations s1 = Suc (invocations s)"
    by auto
  then show ?case
  proof cases
    case quiet
    show ?thesis
    proof (cases "quit_now (base_loop s1)")
      case True
      with r quiet show ?thesis by simp
    next
      case False
      with r have "pump ns s1 = Inr s'" by simp
      from Cons.IH[OF quiet(1) this] quiet(2) show ?thesis by simp
    qed
  next
    case ran
    with r show ?thesis by simp
  qed
qed

lemma RunOnce_fires_first:
  assumes p: "pending (base_loop s) = n # ns"
    and d: "deliver n (s\<lparr>run_once := True, base_loop := (base_loop s)\<lparr>quit_now := False, pending := ns\<rparr>\<rparr>) = Inr s2"
    and q: "\<not> run_once s2" "quit_now (base_loop s2)"
  shows "RunOnce may_block s = Inr (True, s2)"
  using assms by (simp add: RunOnce_def base_Run_def base_RunUntilIdle_def)

lemma RunOnce_skips_first:
  assumes p: "pending (base_loop s) = n # ns"
    and d: "deliver n (s\<lparr>run_once := True, base_loop := (base_loop s)\<lparr>quit_now := False, pending := ns\<rparr>\<rparr>)
             = Inr (s1\<lparr>run_once := True, base_loop := (base_loop s1)\<lparr>quit_now := False\<rparr>\<rparr>)"
    and s1: "pending (base_loop s1) = ns"
  shows "RunOnce may_block s = RunOnce may_block s1"
  using assms by (simp add: RunOnce_def base_Run_def base_RunUntilIdle_def)

subsection \<open>Callbacks that re-enter the loop\<close>

text \<open>
  The functions for callbacks that re-enter the loop agree with the plain ones wherever
  the plain ones follow the callback to its end, and \<^verbatim>\<open>RunOnce\<close> is \<open>RunOnce_on\<close> on the
  two ways of driving the underlying loop.
\<close>

lemma run_cmd_reentrant_plain:
  "run_cmd c s = Inr s' \<Longrightarrow> run_cmd_reentrant inner c s = Inr s'"
  by (cases c) simp_all

lemma run_cmds_reentrant_plain:
  "run_cmds cs s = Inr s' \<Longrightarrow> run_cmds_reentrant inner cs s = Inr s'"
proof (induction cs arbitrary: s)
  case Nil
  then show ?case by simp
next
  case (Cons c cs)
  from Cons.prems obtain s1 where 1: "run_cmd c s = Inr s1" and 2: "run_cmds cs s1 = Inr s'"
    by (auto split: sum.splits)
  from run_cmd_reentrant_plain[OF 1, of inner] Cons.IH[OF 2] show ?case by simp
qed

lemma Closure_Run_reentrant_plain:
  "Closure_Run c s = Inr s' \<Longrightarrow> Closure_Run_reentrant inner c s = Inr s'"
  by (cases c) (simp_all add: run_cmds_reentrant_plain)

lemma OnRanPostedTask_reentrant_plain:
  "OnRanPostedTask tid s = Inr s' \<Longrightarrow> OnRanPostedTask_reentrant inner tid s = Inr s'"
  by (auto simp: OnRanPostedTask_def OnRanPostedTask_reentrant_def Closure_Run_reentrant_plain
      split: option.splits sum.splits if_splits)

lemma OnFileReady_reentrant_plain:
  "OnFileReady this fd s = Inr s' \<Longrightarrow> OnFileReady_reentrant inner this fd s = Inr s'"
  by (auto simp: OnFileReady_def OnFileReady_reentrant_def Closure_Run_reentrant_plain
      split: sum.splits if_splits)

lemma deliver_reentrant_plain:
  "deliver n s = Inr s' \<Longrightarrow> deliver_reentrant inner n s = Inr s'"
  by (auto simp: deliver_def deliver_reentrant_def OnRanPostedTask_reentrant_plain
        OnFileReady_reentrant_plain OnFileCanReadWithoutBlocking_def
        OnFileCanWriteWithoutBlocking_def
      split: notification.splits option.splits BaseMode.splits)

lemma RunOnce_on_plain:
  "RunOnce may_block s =
     RunOnce_on (\<lambda>b s. if b then base_Run s else base_RunUntilIdle s) may_block s"
  by (simp add: RunOnce_def RunOnce_on_def)

text \<open>
  With the descriptors of three one-shot watches ready, and the callback of the first
  calling \<^verbatim>\<open>RunOnce(false)\<close> itself: the inner call runs the callback of the second
  watch, whose fire path clears the flag and stops the inner run, and returns true.
  Back in the outer run the flag is clear, so the fire path of the first watch does not
  ask the underlying loop to quit, and the outer run goes on to deliver to the third
  watch. The outer \<^verbatim>\<open>RunOnce(false)\<close> returns true after three callbacks were invoked,
  two of them by the outer run itself.
\<close>

theorem RunOnce_reentrant_counterexample:
  "\<not> isl (RunOnce_on (run_nesting 1) False reentering) \<and>
   fst (projr (RunOnce_on (run_nesting 1) False reentering)) \<and>
   observed (snd (projr (RunOnce_on (run_nesting 1) False reentering)))
     = [Invoked, Invoked, Noted 8, RunOnceReturned True, Noted 7, Invoked, Noted 9] \<and>
   invocations reentering = 0 \<and>
   invocations (snd (projr (RunOnce_on (run_nesting 1) False reentering))) = 3"
  by (simp add: RunOnce_on_def base_run_reentrant_def innermost_run_def base_RunUntilIdle_def
        deliver_reentrant_def OnFileReady_reentrant_def deliver_def OnFileReady_def
        OnFileCanReadWithoutBlocking_def OnFileCanWriteWithoutBlocking_def
        observe_def stop_if_run_once_def QuitNow_def invocations_def
        reentering_def BaseMessageLoop_new_def idle_base_def)

text \<open>
  Claim C6. \<^verbatim>\<open>RunOnce\<close> drives the underlying loop with the flag set, by
  \<^verbatim>\<open>RunUntilIdle\<close> when it may not block and by \<^verbatim>\<open>Run\<close> when it may. As long as no
  callback run during the call starts a run of the loop itself: when \<^verbatim>\<open>RunOnce\<close> returns,
  the flag is clear; it returns false when no callback was invoked during the call and
  true when exactly one was. A fire path returns when its callback does, and one that
  has run a callback with the flag set clears the flag and asks the underlying loop to
  quit. With nothing to deliver, the non-blocking call returns false, and the blocking
  call does not return. When the first notification ready is for a live watch or for a
  delayed task that was not cancelled, \<^verbatim>\<open>RunOnce\<close> returns true with the state in which
  the fire path of that task left the loop, whatever else is ready; a notification for
  a cancelled delayed task or for a watch that is gone is passed over.
\<close>

theorem RunOnce_one_unit:
  "RunOnce may_block s =
     (case (if may_block then base_Run (s\<lparr>run_once := True\<rparr>)
            else base_RunUntilIdle (s\<lparr>run_once := True\<rparr>)) of
        Inl f \<Rightarrow> Inl f
      | Inr s' \<Rightarrow> Inr (\<not> run_once s', s'\<lparr>run_once := False\<rparr>))
   \<and> (\<forall>r s'. RunOnce may_block s = Inr (r, s') \<longrightarrow>
        \<not> run_once s' \<and> invocations s' = invocations s + (if r then 1 else 0))
   \<and> (\<forall>tid s'. run_once s \<and> OnRanPostedTask tid s = Inr s' \<and> invocations s' \<noteq> invocations s \<longrightarrow>
        \<not> run_once s' \<and> quit_now (base_loop s'))
   \<and> (\<forall>this fd s'. run_once s \<and> OnFileReady this fd s = Inr s' \<longrightarrow>
        \<not> run_once s' \<and> quit_now (base_loop s') \<and> invocations s' = Suc (invocations s))
   \<and> (pending (base_loop s) = [] \<longrightarrow>
        RunOnce True s = Inl NeverReturns \<and>
        (\<exists>s'. RunOnce False s = Inr (False, s') \<and> invocations s' = invocations s))
   \<and> (\<forall>this fd s2.
        Closure_Run (io_closure this)
          (if persistent this then s else s\<lparr>io_tasks := (io_tasks s)(io_task_id this := None)\<rparr>)
          = Inr s2 \<longrightarrow>
        OnFileReady this fd s = Inr (stop_if_run_once s2) \<and>
        OnFileCanReadWithoutBlocking this fd s = Inr (stop_if_run_once s2) \<and>
        OnFileCanWriteWithoutBlocking this fd s = Inr (stop_if_run_once s2))
   \<and> (\<forall>tid t s2.
        delayed_tasks s tid = Some t \<and> \<not> is_null (closure t) \<and>
        Closure_Run (closure t)
          (s\<lparr>delayed_tasks := (delayed_tasks s)(tid \<mapsto> t\<lparr>closure := NullClosure\<rparr>)\<rparr>) = Inr s2 \<longrightarrow>
        OnRanPostedTask tid s =
          Inr ((stop_if_run_once s2)
                 \<lparr>delayed_tasks := (delayed_tasks (stop_if_run_once s2))(tid := None)\<rparr>))
   \<and> (\<forall>tid ns this fd m s2.
        pending (base_loop s) = FileReady tid # ns \<and>
        io_tasks s tid = Some this \<and> fd_watcher this = Some (fd, m) \<and>
        OnFileReady this fd
          (s\<lparr>run_once := True, base_loop := (base_loop s)\<lparr>quit_now := False, pending := ns\<rparr>\<rparr>)
          = Inr s2 \<longrightarrow>
        RunOnce may_block s = Inr (True, s2))
   \<and> (\<forall>tid ns t s2.
        pending (base_loop s) = TimerFired tid # ns \<and>
        delayed_tasks s tid = Some t \<and> \<not> is_null (closure t) \<and>
        OnRanPostedTask tid
          (s\<lparr>run_once := True, base_loop := (base_loop s)\<lparr>quit_now := False, pending := ns\<rparr>\<rparr>)
          = Inr s2 \<longrightarrow>
        RunOnce may_block s = Inr (True, s2))
   \<and> (\<forall>tid ns t.
        pending (base_loop s) = TimerFired tid # ns \<and>
        delayed_tasks s tid = Some t \<and> is_null (closure t) \<longrightarrow>
        RunOnce may_block s =
          RunOnce may_block (s\<lparr>base_loop := (base_loop s)\<lparr>pending := ns\<rparr>,
                               delayed_tasks := (delayed_tasks s)(tid := None)\<rparr>))
   \<and> (\<forall>tid ns.
        pending (base_loop s) = FileReady tid # ns \<and> io_tasks s tid = None \<longrightarrow>
        RunOnce may_block s = RunOnce may_block (s\<lparr>base_loop := (base_loop s)\<lparr>pending := ns\<rparr>\<rparr>))"
proof (intro conjI allI impI)
  show "RunOnce may_block s =
     (case (if may_block then base_Run (s\<lparr>run_once := True\<rparr>)
            else base_RunUntilIdle (s\<lparr>run_once := True\<rparr>)) of
        Inl f \<Rightarrow> Inl f
      | Inr s' \<Rightarrow> Inr (\<not> run_once s', s'\<lparr>run_once := False\<rparr>))"
    by (auto simp: RunOnce_def split: sum.splits)
next
  fix r s' assume a: "RunOnce may_block s = Inr (r, s')"
  let ?s0 = "s\<lparr>run_once := True\<rparr>"
  let ?s1 = "?s0\<lparr>base_loop := (base_loop ?s0)\<lparr>quit_now := False\<rparr>\<rparr>"
  from a obtain s2 where p: "pump (pending (base_loop ?s0)) ?s1 = Inr s2"
    and s': "if run_once s2 then \<not> r \<and> s' = s2\<lparr>run_once := False\<rparr> else r \<and> s' = s2"
    by (auto simp: RunOnce_def base_Run_def base_RunUntilIdle_def split: sum.splits if_splits)
  have "run_once ?s1" "invocations ?s1 = invocations s" by (simp_all add: invocations_def)
  with pump_run_once[OF this(1) p] s'
  show "\<not> run_once s'" "invocations s' = invocations s + (if r then 1 else 0)"
    by (auto simp: invocations_def split: if_splits)
next
  fix tid s'
  assume "run_once s \<and> OnRanPostedTask tid s = Inr s' \<and> invocations s' \<noteq> invocations s"
  with OnRanPostedTask_run_once[of s tid s']
  show "\<not> run_once s'" "quit_now (base_loop s')" by auto
next
  fix this fd s'
  assume "run_once s \<and> OnFileReady this fd s = Inr s'"
  with OnFileReady_run_once[of s this fd s']
  show "\<not> run_once s'" "quit_now (base_loop s')" "invocations s' = Suc (invocations s)" by auto
next
  assume "pending (base_loop s) = []"
  then show "RunOnce True s = Inl NeverReturns"
    "\<exists>s'. RunOnce False s = Inr (False, s') \<and> invocations s' = invocations s"
    by (simp_all add: RunOnce_def base_Run_def base_RunUntilIdle_def invocations_def)
next
  fix this :: IOTask and fd s2
  assume "Closure_Run (io_closure this)
          (if persistent this then s else s\<lparr>io_tasks := (io_tasks s)(io_task_id this := None)\<rparr>)
          = Inr s2"
  then show "OnFileReady this fd s = Inr (stop_if_run_once s2)"
    "OnFileCanReadWithoutBlocking this fd s = Inr (stop_if_run_once s2)"
    "OnFileCanWriteWithoutBlocking this fd s = Inr (stop_if_run_once s2)"
    by (simp_all add: OnFileReady_def OnFileCanReadWithoutBlocking_def
          OnFileCanWriteWithoutBlocking_def split: if_splits)
next
  fix tid t s2
  assume "delayed_tasks s tid = Some t \<and> \<not> is_null (closure t) \<and>
        Closure_Run (closure t)
          (s\<lparr>delayed_tasks := (delayed_tasks s)(tid \<mapsto> t\<lparr>closure := NullClosure\<rparr>)\<rparr>) = Inr s2"
  then show "OnRanPostedTask tid s =
          Inr ((stop_if_run_once s2)
                 \<lparr>delayed_tasks := (delayed_tasks (stop_if_run_once s2))(tid := None)\<rparr>)"
    by (simp add: OnRanPostedTask_def)
next
  fix tid ns this fd m s2
  let ?s0 = "s\<lparr>run_once := True, base_loop := (base_loop s)\<lparr>quit_now := False, pending := ns\<rparr>\<rparr>"
  assume a: "pending (base_loop s) = FileReady tid # ns \<and>
        io_tasks s tid = Some this \<and> fd_watcher this = Some (fd, m) \<and>
        OnFileReady this fd ?s0 = Inr s2"
  then have "io_tasks ?s0 tid = Some this" by simp
  from deliver_FileReady_bound[OF this, of fd m] a
  have d: "deliver (FileReady tid) ?s0 = Inr s2" by simp
  have "run_once ?s0" by simp
  from OnFileReady_run_once[OF this, of this fd s2] a
  have "\<not> run_once s2" "quit_now (base_loop s2)" by simp_all
  with a d show "RunOnce may_block s = Inr (True, s2)"
    by (intro RunOnce_fires_first) simp_all
next
  fix tid ns t s2
  let ?s0 = "s\<lparr>run_once := True, base_loop := (base_loop s)\<lparr>quit_now := False, pending := ns\<rparr>\<rparr>"
  assume a: "pending (base_loop s) = TimerFired tid # ns \<and>
        delayed_tasks s tid = Some t \<and> \<not> is_null (closure t) \<and>
        OnRanPostedTask tid ?s0 = Inr s2"
  then have d: "deliver (TimerFired tid) ?s0 = Inr s2" by (simp add: deliver_def)
  let ?s1 = "?s0\<lparr>delayed_tasks := (delayed_tasks ?s0)(tid \<mapsto> t\<lparr>closure := NullClosure\<rparr>)\<rparr>"
  from a obtain s3 where run: "Closure_Run (closure t) ?s1 = Inr s3"
    and s2: "s2 = (stop_if_run_once s3)\<lparr>delayed_tasks := (delayed_tasks (stop_if_run_once s3))(tid := None)\<rparr>"
    by (auto simp: OnRanPostedTask_def split: sum.splits)
  from Closure_Run_invocations[OF run] have "run_once s3" by simp
  from stop_if_run_once_set[OF this] s2
  have "\<not> run_once s2" "quit_now (base_loop s2)" by simp_all
  with a d show "RunOnce may_block s = Inr (True, s2)"
    by (intro RunOnce_fires_first) simp_all
next
  fix tid ns t
  assume a: "pending (base_loop s) = TimerFired tid # ns \<and>
        delayed_tasks s tid = Some t \<and> is_null (closure t)"
  show "RunOnce may_block s =
          RunOnce may_block (s\<lparr>base_loop := (base_loop s)\<lparr>pending := ns\<rparr>,
                               delayed_tasks := (delayed_tasks s)(tid := None)\<rparr>)"
    using a by (intro RunOnce_skips_first[where n = "TimerFired tid" and ns = ns])
      (simp_all add: deliver_def OnRanPostedTask_def)
next
  fix tid ns
  assume a: "pending (base_loop s) = FileReady tid # ns \<and> io_tasks s tid = None"
  show "RunOnce may_block s = RunOnce may_block (s\<lparr>base_loop := (base_loop s)\<lparr>pending := ns\<rparr>\<rparr>)"
    using a by (intro RunOnce_skips_first[where n = "FileReady tid" and ns = ns])
      (simp_all add: deliver_def)
qed


theorem RunOnce_one_unit_witness:
  "(\<exists>s'. RunOnce True two_timers_ready = Inr (True, s') \<and>
      observed s' = [Invoked, Noted 7] \<and> pending (base_loop s') = [TimerFired 2] \<and>
      \<not> run_once s' \<and> invocations s' = 1) \<and>
   (\<exists>s'. RunOnce True cancelled_then_watch = Inr (True, s') \<and>
      observed s' = [Invoked, Noted 8] \<and> pending (base_loop s') = [TimerFired 3] \<and>
      delayed_tasks s' 1 = None \<and> io_tasks s' 2 = None \<and>
      \<not> run_once s' \<and> invocations s' = 1) \<and>
   pending (base_loop (BaseMessageLoop_new idle_base)) = [] \<and>
   RunOnce True (BaseMessageLoop_new idle_base) = Inl NeverReturns \<and>
   (\<exists>s'. RunOnce False (BaseMessageLoop_new idle_base) = Inr (False, s'))"
proof -
  have "\<exists>s'. RunOnce True two_timers_ready = Inr (True, s') \<and>
      observed s' = [Invoked, Noted 7] \<and> pending (base_loop s') = [TimerFired 2]"
    by (simp add: RunOnce_def base_Run_def deliver_def OnRanPostedTask_def is_null_def
          observe_def stop_if_run_once_def QuitNow_def two_timers_ready_def
          BaseMessageLoop_new_def idle_base_def)
  then obtain s' where s': "RunOnce True two_timers_ready = Inr (True, s')"
    and o: "observed s' = [Invoked, Noted 7]" "pending (base_loop s') = [TimerFired 2]" by blast
  have i0: "invocations two_timers_ready = 0"
    by (simp add: invocations_def two_timers_ready_def BaseMessageLoop_new_def)
  from RunOnce_one_unit[of True two_timers_ready, THEN conjunct2, THEN conjunct1, rule_format, OF s'] i0
  have r: "\<not> run_once s' \<and> invocations s' = 1" by simp
  have e: "pending (base_loop (BaseMessageLoop_new idle_base)) = []"
    by (simp add: BaseMessageLoop_new_def idle_base_def)
  from RunOnce_one_unit[of True "BaseMessageLoop_new idle_base", THEN conjunct2, THEN conjunct2,
         THEN conjunct2, THEN conjunct2, THEN conjunct1, rule_format, OF e]
  have idle: "RunOnce True (BaseMessageLoop_new idle_base) = Inl NeverReturns \<and>
   (\<exists>s'. RunOnce False (BaseMessageLoop_new idle_base) = Inr (False, s'))" by blast
  let ?c = cancelled_then_watch
  let ?t = "\<lparr>location = ''here'', task_id = 1, closure = NullClosure\<rparr>"
  let ?w = "\<lparr>io_location = ''b'', io_task_id = 2, persistent = False,
                io_closure = Bind [Note 8], fd_watcher = Some (4, WATCH_WRITE)\<rparr>"
  let ?c1 = "?c\<lparr>base_loop := (base_loop ?c)\<lparr>pending := [FileReady 2, TimerFired 3]\<rparr>,
                 delayed_tasks := (delayed_tasks ?c)(1 := None)\<rparr>"
  let ?c2 = "?c1\<lparr>run_once := True,
                 base_loop := (base_loop ?c1)\<lparr>quit_now := False, pending := [TimerFired 3]\<rparr>\<rparr>"
  have c: "pending (base_loop ?c) = TimerFired 1 # [FileReady 2, TimerFired 3] \<and>
      delayed_tasks ?c 1 = Some ?t \<and> is_null (closure ?t)"
    by (simp add: cancelled_then_watch_def BaseMessageLoop_new_def idle_base_def is_null_def)
  from RunOnce_one_unit[of True ?c, THEN conjunct2, THEN conjunct2, THEN conjunct2,
         THEN conjunct2, THEN conjunct2, THEN conjunct2, THEN conjunct2, THEN conjunct2,
         THEN conjunct2, THEN conjunct1, rule_format, OF c]
  have step1: "RunOnce True ?c = RunOnce True ?c1" .
  have "Closure_Run (io_closure ?w)
          (if persistent ?w then ?c2 else ?c2\<lparr>io_tasks := (io_tasks ?c2)(io_task_id ?w := None)\<rparr>)
        = Inr (observe (Noted 8) (observe Invoked (?c2\<lparr>io_tasks := (io_tasks ?c2)(2 := None)\<rparr>)))"
    by simp
  from RunOnce_one_unit[of True ?c2, THEN conjunct2, THEN conjunct2, THEN conjunct2,
         THEN conjunct2, THEN conjunct2, THEN conjunct1, rule_format, OF this, of 4]
  have fire: "OnFileReady ?w 4 ?c2 =
      Inr (stop_if_run_once (observe (Noted 8) (observe Invoked (?c2\<lparr>io_tasks := (io_tasks ?c2)(2 := None)\<rparr>))))"
    by blast
  let ?c3 = "stop_if_run_once (observe (Noted 8) (observe Invoked (?c2\<lparr>io_tasks := (io_tasks ?c2)(2 := None)\<rparr>)))"
  have c1: "pending (base_loop ?c1) = FileReady 2 # [TimerFired 3] \<and>
      io_tasks ?c1 2 = Some ?w \<and> fd_watcher ?w = Some (4, WATCH_WRITE) \<and>
      OnFileReady ?w 4 ?c2 = Inr ?c3"
    using fire by (simp add: cancelled_then_watch_def BaseMessageLoop_new_def)
  from RunOnce_one_unit[of True ?c1, THEN conjunct2, THEN conjunct2, THEN conjunct2,
         THEN conjunct2, THEN conjunct2, THEN conjunct2, THEN conjunct2,
         THEN conjunct1, rule_format, OF c1]
  have step2: "RunOnce True ?c1 = Inr (True, ?c3)" .
  with step1 have res: "RunOnce True ?c = Inr (True, ?c3)" by simp
  have i1: "invocations ?c = 0"
    by (simp add: invocations_def cancelled_then_watch_def BaseMessageLoop_new_def)
  from RunOnce_one_unit[of True ?c, THEN conjunct2, THEN conjunct1, rule_format, OF res] i1
  have r3: "\<not> run_once ?c3 \<and> invocations ?c3 = 1" by simp
  have o3: "observed ?c3 = [Invoked, Noted 8]" "pending (base_loop ?c3) = [TimerFired 3]"
    "delayed_tasks ?c3 1 = None" "io_tasks ?c3 2 = None"
    by (simp_all add: observe_def stop_if_run_once_def QuitNow_def cancelled_then_watch_def
          BaseMessageLoop_new_def idle_base_def)
  from res r3 o3 have "\<exists>s'. RunOnce True cancelled_then_watch = Inr (True, s') \<and>
      observed s' = [Invoked, Noted 8] \<and> pending (base_loop s') = [TimerFired 3] \<and>
      delayed_tasks s' 1 = None \<and> io_tasks s' 2 = None \<and>
      \<not> run_once s' \<and> invocations s' = 1" by blast
  with s' o r e idle show ?thesis by blast
qed

section \<open>Properties of the file utilities\<close>

subsection \<open>What a call leaves alone\<close>

lemma node_at_unlink_other: "p \<noteq> q \<Longrightarrow> node_at (unlink e fs q) p = node_at fs p"
  by (auto simp: unlink_def node_at_def split: option.splits node.splits)

lemma unlink_root: "unlink e fs [] = fs"
  by (simp add: unlink_def node_at_def)

lemma node_at_set_contents_other: "p \<noteq> q \<Longrightarrow> node_at (set_contents fs q bs) p = node_at fs p"
  by (auto simp: set_contents_def node_at_def split: option.splits node.splits)

lemma node_at_set_durable_other: "p \<noteq> q \<Longrightarrow> node_at (set_durable fs q) p = node_at fs p"
  by (auto simp: set_durable_def node_at_def split: option.splits node.splits)

lemma open_creat_excl_Some:
  assumes "open_creat_excl e site fs q mode = Some fs'"
  shows "q \<noteq> [] \<and> fs' = fs(q \<mapsto> RegularFile \<lparr>contents = [], st_mode = mode AND NOT (umask e),
                                       st_uid = euid e, st_gid = egid e, durable = False\<rparr>)"
  using assms by (auto simp: open_creat_excl_def node_at_def split: if_splits)

lemma not_in_ancestors_DirName: "p \<noteq> [] \<Longrightarrow> p \<notin> set (ancestors (DirName p))"
proof
  assume "p \<noteq> []" "p \<in> set (ancestors (DirName p))"
  then obtain k where "p = take k (butlast p)" by (auto simp: ancestors_def DirName_def)
  then have "length p = length (take k (butlast p))" by simp
  moreover have "length (take k (butlast p)) \<le> length p - 1" by simp
  ultimately have "length p \<le> length p - 1" by (rule ssubst)
  moreover from \<open>p \<noteq> []\<close> have "0 < length p" by simp
  ultimately show False by arith
qed

lemma node_at_CreateDirectory_DirName:
  "node_at (snd (CreateDirectory e (DirName p) fs)) p = node_at fs p"
proof (cases "p = []")
  case True
  then show ?thesis by (simp add: node_at_def)
next
  case False
  from not_in_ancestors_DirName[OF this] show ?thesis
    by (simp add: CreateDirectory_def node_at_def)
qed

subsection \<open>The temporary name\<close>

lemma length_GetRandomSuffix: "length (GetRandomSuffix buffer) = 6"
  by (simp add: GetRandomSuffix_def)

lemma AddExtension_differs:
  assumes "length ext = 6"
  shows "AddExtension p ext = [] \<or> AddExtension p ext \<noteq> p"
proof (cases "p = [] \<or> last p = [] \<or> last p = ''.'' \<or> last p = ''..''")
  case True
  then show ?thesis by (simp add: AddExtension_def)
next
  case False
  from assms have e: "ext \<noteq> []" "ext \<noteq> ''.''" by auto
  let ?l = "last p @ (if hd ext \<noteq> CHR ''.'' \<and> last (last p) \<noteq> CHR ''.'' then ''.'' else []) @ ext"
  have a: "AddExtension p ext = butlast p @ [?l]" using False e by (simp add: AddExtension_def)
  have "length ?l > length (last p)" using e by simp
  then have "?l \<noteq> last p" by auto
  then have "butlast p @ [?l] \<noteq> p" by (metis last_snoc)
  with a show ?thesis by simp
qed

subsection \<open>The write loop\<close>

lemma write_loop_Some:
  "write_loop w k data position out = Some r \<Longrightarrow> position \<le> length data \<Longrightarrow> fst r \<Longrightarrow>
     snd r = out @ drop position data"
proof (induction w k data position out r
         rule: write_loop.raw_induct[rotated 1, consumes 1, case_names step])
  case (step write_loop w k data position out r)
  show ?case
  proof (cases "position < length data")
    case False
    with step(2,3) show ?thesis by auto
  next
    case True
    let ?n = "min (nat (w k)) (length data - position)"
    from True step(2,4) have nn: "\<not> w k < 0" by (auto split: if_splits)
    with True step(2) have
      "write_loop w (Suc k) data (position + ?n) (out @ take ?n (drop position data)) = Some r"
      by simp
    from step(1)[OF this _ step(4)] True
    have 1: "snd r = (out @ take ?n (drop position data)) @ drop (position + ?n) data" by simp
    have 2: "drop (position + ?n) data = drop ?n (drop position data)"
      by (simp add: add.commute)
    have 3: "take ?n (drop position data) @ drop ?n (drop position data) = drop position data"
      by (rule append_take_drop_id)
    from 1 have "snd r = out @ (take ?n (drop position data) @ drop ?n (drop position data))"
      unfolding 2 by (simp only: append_assoc)
    then show ?thesis unfolding 3 .
  qed
qed

lemma write_loop_returns:
  assumes "\<forall>k. w k \<noteq> 0"
  shows "length data - position = d \<Longrightarrow> \<exists>r. write_loop w k data position out = Some r"
proof (induction d arbitrary: k position out rule: less_induct)
  case (less d)
  show ?case
  proof (cases "position < length data")
    case False
    then show ?thesis by (subst write_loop.simps) auto
  next
    case True
    show ?thesis
    proof (cases "w k < 0")
      case True
      with \<open>position < length data\<close> show ?thesis by (subst write_loop.simps) auto
    next
      case False
      with assms have pos: "0 < w k" by (metis linorder_neqE_linordered_idom)
      let ?n = "min (nat (w k)) (length data - position)"
      from pos True have "0 < ?n" by simp
      with True less.prems have "length data - (position + ?n) < d" by arith
      from less.IH[OF this refl]
      obtain r where "write_loop w (Suc k) data (position + ?n)
                        (out @ take ?n (drop position data)) = Some r" by blast
      with True False show ?thesis by (subst write_loop.simps) simp
    qed
  qed
qed

subsection \<open>\<^verbatim>\<open>WriteToFileAtomic\<close>\<close>

lemma rename_cases:
  assumes "rename e fs old new = (ok, fs')" "old \<noteq> new"
  shows "if ok then \<exists>f. fs old = Some (RegularFile f) \<and> new \<noteq> [] \<and>
                     fs' = fs(new \<mapsto> RegularFile f, old := None)
         else fs' = fs"
  using assms
  by (auto simp: rename_def node_at_def split: if_splits option.splits node.splits)

lemma WriteToFileAtomic_returns:
  assumes "\<forall>k. write_result e k \<noteq> 0"
  shows "\<exists>r. WriteToFileAtomic e path data mode fs = Some r"
proof -
  from write_loop_returns[OF assms refl, where data = data and position = 0 and k = 0 and out = "[]"]
  obtain r where "write_loop (write_result e) 0 data 0 [] = Some r" by blast
  then show ?thesis
    by (auto simp: WriteToFileAtomic_def Let_def split: prod.splits option.splits bool.splits)
qed

text \<open>
  Claim C8. Whenever \<^verbatim>\<open>WriteToFileAtomic\<close> returns true, the destination is a regular file
  holding exactly the data, flushed to stable storage, with the requested mode less the
  umask; whenever it returns false, for whichever call failed, the destination is what
  it was before the call. The call returns whenever \<^verbatim>\<open>write\<close> never returns zero.
\<close>

theorem WriteToFileAtomic_all_or_nothing:
  "(\<forall>ok fs'. WriteToFileAtomic e path data mode fs = Some (ok, fs') \<longrightarrow>
      (if ok then node_at fs' path =
                 Some (RegularFile \<lparr>contents = data, st_mode = mode AND NOT (umask e),
                         st_uid = euid e, st_gid = egid e, durable = True\<rparr>)
       else node_at fs' path = node_at fs path))
   \<and> ((\<forall>k. write_result e k \<noteq> 0) \<longrightarrow> (\<exists>r. WriteToFileAtomic e path data mode fs = Some r))"
proof (intro conjI allI impI)
  assume "\<forall>k. write_result e k \<noteq> 0"
  then show "\<exists>r. WriteToFileAtomic e path data mode fs = Some r"
    by (rule WriteToFileAtomic_returns)
next
  fix ok fs'
  assume W: "WriteToFileAtomic e path data mode fs = Some (ok, fs')"
  show "if ok then node_at fs' path =
                 Some (RegularFile \<lparr>contents = data, st_mode = mode AND NOT (umask e),
                         st_uid = euid e, st_gid = egid e, durable = True\<rparr>)
        else node_at fs' path = node_at fs path"
  proof -
    let ?t = "AddExtension path (GetRandomSuffix (rand_bytes e))"
    let ?f0 = "\<lparr>contents = [], st_mode = mode AND NOT (umask e),
                st_uid = euid e, st_gid = egid e, durable = False\<rparr>"
    obtain b1 fs1 where cd: "(if \<not> DirectoryExists fs (DirName path)
        then CreateDirectory e (DirName path) fs else (True, fs)) = (b1, fs1)"
      by (cases "if \<not> DirectoryExists fs (DirName path)
        then CreateDirectory e (DirName path) fs else (True, fs)")
    have n1: "node_at fs1 path = node_at fs path"
    proof (cases "DirectoryExists fs (DirName path)")
      case True
      with cd show ?thesis by simp
    next
      case False
      with cd have "fs1 = snd (CreateDirectory e (DirName path) fs)" by simp
      then show ?thesis by (simp add: node_at_CreateDirectory_DirName)
    qed
    have sfx: "GetRandomSuffix (rand_bytes e) \<noteq> []"
      using length_GetRandomSuffix[of "rand_bytes e"] by auto
    have td: "?t = [] \<or> ?t \<noteq> path"
      by (rule AddExtension_differs) (rule length_GetRandomSuffix)
    show ?thesis
    proof (cases b1)
      case False
      with W cd have "ok = False" "fs' = fs1" by (simp_all add: WriteToFileAtomic_def)
      with n1 show ?thesis by simp
    next
      case b1: True
      show ?thesis
      proof (cases "open_creat_excl e AtOpenTemp fs1 ?t mode")
        case None
        with W cd b1 sfx have r: "ok = False" "fs' = unlink e fs1 ?t"
          by (simp_all add: WriteToFileAtomic_def Let_def)
        from td have "node_at (unlink e fs1 ?t) path = node_at fs1 path"
          by (auto simp: unlink_root node_at_unlink_other)
        with r n1 show ?thesis by simp
      next
        case (Some fs2)
        note oc = Some
        from open_creat_excl_Some[OF Some] have t: "?t \<noteq> []"
          and fs2: "fs2 = fs1(?t \<mapsto> RegularFile ?f0)" by simp_all
        from t td have ne: "path \<noteq> ?t" by auto
        have n2: "node_at fs2 path = node_at fs1 path" using fs2 ne by (simp add: node_at_def)
        show ?thesis
        proof (cases "write_loop (write_result e) 0 data 0 []")
          case None
          with W cd b1 sfx oc show ?thesis by (simp add: WriteToFileAtomic_def Let_def)
        next
          case (Some r)
          obtain written out where r: "r = (written, out)" by (cases r)
          note wl = Some[unfolded r]
          let ?fs3 = "set_contents fs2 ?t out"
          let ?fs4 = "set_durable ?fs3 ?t"
          have n3: "node_at ?fs3 path = node_at fs path"
            using n1 n2 ne by (simp add: node_at_set_contents_other)
          have n4: "node_at ?fs4 path = node_at fs path"
            using n3 ne by (simp add: node_at_set_durable_other)
          have f4: "?fs4 ?t = Some (RegularFile (?f0\<lparr>contents := out, durable := True\<rparr>))"
            using fs2 by (simp add: set_contents_def set_durable_def)
          from W have W': "(if \<not> written then Some (False, unlink e ?fs3 ?t)
                        else if fails e AtFdatasync then Some (False, unlink e ?fs3 ?t)
                        else if fails e AtClose then Some (False, unlink e ?fs4 ?t)
                        else (case rename e ?fs4 ?t path of
                             (False, fs5) \<Rightarrow> Some (False, unlink e fs5 ?t)
                           | (True, fs5) \<Rightarrow> Some (True, fs5))) = Some (ok, fs')"
            unfolding WriteToFileAtomic_def cd Let_def using b1 sfx
            by (simp add: oc wl)
          show ?thesis
          proof (cases "written \<and> \<not> fails e AtFdatasync \<and> \<not> fails e AtClose")
            case False
            with W' have "ok = False" "fs' = unlink e ?fs3 ?t \<or> fs' = unlink e ?fs4 ?t"
              by (auto split: if_splits)
            with n3 n4 ne show ?thesis by (auto simp: node_at_unlink_other)
          next
            case True
            obtain ok5 fs5 where rn: "rename e ?fs4 ?t path = (ok5, fs5)"
              by (cases "rename e ?fs4 ?t path")
            from rename_cases[OF rn] ne have rc: "if ok5 then \<exists>f. ?fs4 ?t = Some (RegularFile f) \<and> path \<noteq> [] \<and>
                       fs5 = ?fs4(path \<mapsto> RegularFile f, ?t := None)
                    else fs5 = ?fs4" by auto
            show ?thesis
            proof (cases ok5)
              case False
              with W' True rn rc have "ok = False" "fs' = unlink e ?fs4 ?t" by simp_all
              with n4 ne show ?thesis by (simp add: node_at_unlink_other)
            next
              case ok5: True
              with W' True rn have o: "ok = True" "fs' = fs5" by simp_all
              from True wl have "write_loop (write_result e) 0 data 0 [] = Some (True, out)" by simp
              from write_loop_Some[OF this] have out: "out = data" by simp
              from rc ok5 f4 have "path \<noteq> []"
                "fs5 = ?fs4(path \<mapsto> RegularFile (?f0\<lparr>contents := out, durable := True\<rparr>), ?t := None)"
                by auto
              with ne have "node_at fs5 path = Some (RegularFile (?f0\<lparr>contents := out, durable := True\<rparr>))"
                by (simp add: node_at_def)
              with o out show ?thesis by simp
            qed
          qed
        qed
      qed
    qed
  qed
qed

theorem WriteToFileAtomic_all_or_nothing_witness:
  "(\<forall>k. write_result plain_env k \<noteq> 0) \<and>
   (\<exists>fs'. WriteToFileAtomic plain_env [''etc'', ''conf''] [1, 2, 3] 420 etc_fs = Some (True, fs') \<and>
      node_at fs' [''etc'', ''conf''] =
        Some (RegularFile \<lparr>contents = [1, 2, 3], st_mode = 420, st_uid = 1000, st_gid = 1000,
                durable = True\<rparr>)) \<and>
   (\<exists>fs'. WriteToFileAtomic (plain_env\<lparr>fails := (\<lambda>site. site = AtRename)\<rparr>)
             [''etc'', ''conf''] [1, 2, 3] 420 etc_fs = Some (False, fs') \<and>
      node_at fs' [''etc'', ''conf''] = Some (RegularFile old_conf))"
proof -
  let ?p = "[''etc'', ''conf'']"
  let ?e' = "plain_env\<lparr>fails := (\<lambda>site. site = AtRename)\<rparr>"
  have h: "\<forall>k. write_result plain_env k \<noteq> 0" by (simp add: plain_env_def)
  have wl: "write_loop (\<lambda>k. 2) 0 [1, 2, 3] 0 [] = Some (True, [1, 2, 3])"
    apply (subst write_loop.simps, simp)
    apply (subst write_loop.simps, simp)
    apply (subst write_loop.simps, simp)
    done
  have gs: "GetRandomSuffix (\<lambda>i. 0) = ''aaaaaa''" by code_simp
  have sfx: "GetRandomSuffix (\<lambda>i. 0) \<noteq> []" by (simp add: gs)
  have ae: "AddExtension ?p (GetRandomSuffix (\<lambda>i. 0)) = [''etc'', ''conf.aaaaaa'']"
    by (simp add: AddExtension_def gs)
  have "\<exists>fs'. WriteToFileAtomic plain_env ?p [1, 2, 3] 420 etc_fs = Some (True, fs')"
    unfolding WriteToFileAtomic_def
    by (simp add: plain_env_def wl sfx ae Let_def DirectoryExists_def DirName_def node_at_def
          etc_fs_def open_creat_excl_def set_contents_def set_durable_def rename_def)
  then obtain fs1 where 1: "WriteToFileAtomic plain_env ?p [1, 2, 3] 420 etc_fs = Some (True, fs1)" ..
  from WriteToFileAtomic_all_or_nothing[of plain_env ?p "[1, 2, 3]" 420 etc_fs,
         THEN conjunct1, rule_format, OF 1]
  have r1: "node_at fs1 ?p = Some (RegularFile \<lparr>contents = [1, 2, 3], st_mode = 420,
              st_uid = 1000, st_gid = 1000, durable = True\<rparr>)"
    by (simp add: plain_env_def)
  have "\<exists>fs'. WriteToFileAtomic ?e' ?p [1, 2, 3] 420 etc_fs = Some (False, fs')"
    unfolding WriteToFileAtomic_def
    by (simp add: plain_env_def wl sfx ae Let_def DirectoryExists_def DirName_def node_at_def
          etc_fs_def open_creat_excl_def set_contents_def set_durable_def rename_def)
  then obtain fs2 where 2: "WriteToFileAtomic ?e' ?p [1, 2, 3] 420 etc_fs = Some (False, fs2)" ..
  from WriteToFileAtomic_all_or_nothing[of ?e' ?p "[1, 2, 3]" 420 etc_fs,
         THEN conjunct1, rule_format, OF 2]
  have r2: "node_at fs2 ?p = Some (RegularFile old_conf)"
    by (simp add: node_at_def etc_fs_def)
  from h 1 r1 2 r2 show ?thesis by blast
qed

subsection \<open>\<^verbatim>\<open>TouchFile\<close>\<close>

lemma DeleteFile_False: "DeleteFile e site p recursive fs = (False, fs') \<Longrightarrow> fs' = fs"
  by (auto simp: DeleteFile_def split: option.splits node.splits if_splits)





lemma RegularFileOrDelete_matching:
  assumes "node_at fs path = Some (RegularFile f)" "st_uid f = uid" "st_gid f = gid"
    "\<not> fails e AtOpenExisting" "\<not> fails e AtFstat"
  shows "RegularFileOrDelete e path uid gid fs = (kRegularFile, fs)"
  using assms by (simp add: RegularFileOrDelete_def openat_rdonly_nofollow_def)






text \<open>
  Claim C10, as stated, fails: with a permission bit outside 0777 requested,
  \<^verbatim>\<open>TouchFile\<close> returns false although a regular file of the given owner is at the path.
\<close>

theorem TouchFile_existing_counterexample:
  "node_at etc_fs [''etc'', ''conf''] = Some (RegularFile old_conf) \<and>
   st_uid old_conf = 1000 \<and> st_gid old_conf = 1000 \<and>
   TouchFile plain_env [''etc'', ''conf''] 512 1000 1000 etc_fs = (False, etc_fs)"
  by (simp add: TouchFile_def node_at_def etc_fs_def old_conf_def kPermissions777_def)

text \<open>
  Claim C10, amended. With a regular file owned by the given uid and gid at the path:
  \<^verbatim>\<open>TouchFile\<close> returns true and changes nothing at all when the requested permission
  bits lie within 0777 and the file can be opened and examined; it returns false and
  changes nothing when a bit outside 0777 is requested; and whenever the file can be
  examined it stays at the path with its contents, owner, group and permission bits.
  The requested bits are applied to a file the call has created, and to no other.
\<close>

theorem TouchFile_existing:
  assumes "node_at fs path = Some (RegularFile f)" "st_uid f = uid" "st_gid f = gid"
  shows "(perms AND NOT kPermissions777 = 0 \<and> \<not> fails e AtOpenExisting \<and> \<not> fails e AtFstat \<longrightarrow>
            TouchFile e path perms uid gid fs = (True, fs))
       \<and> (perms AND NOT kPermissions777 \<noteq> 0 \<longrightarrow> TouchFile e path perms uid gid fs = (False, fs))
       \<and> (\<not> fails e AtFstat \<longrightarrow>
            node_at (snd (TouchFile e path perms uid gid fs)) path = Some (RegularFile f))"
proof (intro conjI impI)
  assume "perms AND NOT kPermissions777 = 0 \<and> \<not> fails e AtOpenExisting \<and> \<not> fails e AtFstat"
  with RegularFileOrDelete_matching[OF assms, of e]
  show "TouchFile e path perms uid gid fs = (True, fs)"
    by (simp add: TouchFile_def TouchFileInternal_def)
next
  assume "perms AND NOT kPermissions777 \<noteq> 0"
  then show "TouchFile e path perms uid gid fs = (False, fs)" by (simp add: TouchFile_def)
next
  assume st: "\<not> fails e AtFstat"
  show "node_at (snd (TouchFile e path perms uid gid fs)) path = Some (RegularFile f)"
  proof (cases "perms AND NOT kPermissions777 = 0")
    case False
    with assms(1) show ?thesis by (simp add: TouchFile_def)
  next
    case valid: True
    show ?thesis
    proof (cases "fails e AtOpenExisting")
      case False
      with RegularFileOrDelete_matching[OF assms False st] valid assms(1) show ?thesis
        by (simp add: TouchFile_def TouchFileInternal_def)
    next
      case True
      then have r: "RegularFileOrDelete e path uid gid fs = (kEmpty, fs)"
        by (simp add: RegularFileOrDelete_def openat_rdonly_nofollow_def)
      obtain b fs2 where c: "CreateDirectory e (DirName path) fs = (b, fs2)"
        by (cases "CreateDirectory e (DirName path) fs")
      have "node_at fs2 path = node_at fs path"
        using node_at_CreateDirectory_DirName[of e path fs] c by simp
      with assms(1) have n: "node_at fs2 path = Some (RegularFile f)" by simp
      then have "open_creat_excl e AtOpenCreate fs2 path kPermissions600 = None"
        by (simp add: open_creat_excl_def)
      with r c valid have "snd (TouchFile e path perms uid gid fs) = fs2"
        by (cases b) (simp_all add: TouchFile_def TouchFileInternal_def)
      with n show ?thesis by simp
    qed
  qed
qed

theorem TouchFile_existing_witness:
  "node_at etc_fs [''etc'', ''conf''] = Some (RegularFile old_conf) \<and>
   st_uid old_conf = 1000 \<and> st_gid old_conf = 1000 \<and>
   kPermissions600 AND NOT kPermissions777 = 0 \<and>
   \<not> fails plain_env AtOpenExisting \<and> \<not> fails plain_env AtFstat \<and>
   TouchFile plain_env [''etc'', ''conf''] kPermissions600 1000 1000 etc_fs = (True, etc_fs) \<and>
   512 AND NOT kPermissions777 \<noteq> 0 \<and>
   TouchFile plain_env [''etc'', ''conf''] 512 1000 1000 etc_fs = (False, etc_fs)"
proof -
  have h: "node_at etc_fs [''etc'', ''conf''] = Some (RegularFile old_conf)"
    "st_uid old_conf = 1000" "st_gid old_conf = 1000"
    by (simp_all add: node_at_def etc_fs_def old_conf_def)
  have v: "kPermissions600 AND NOT kPermissions777 = 0 \<and>
           \<not> fails plain_env AtOpenExisting \<and> \<not> fails plain_env AtFstat"
    by (simp add: kPermissions600_def kPermissions777_def plain_env_def)
  have w: "512 AND NOT kPermissions777 \<noteq> 0" by (simp add: kPermissions777_def)
  from TouchFile_existing[OF h, of kPermissions600 plain_env, THEN conjunct1, rule_format, OF v]
       TouchFile_existing[OF h, of 512 plain_env, THEN conjunct2, THEN conjunct1, rule_format, OF w]
       h v w
  show ?thesis by simp
qed

end
